theory Spec2Isabelle
  imports Complex_Main "HOL-Library.Sublist" "HOL-Library.Multiset"
begin

section \<open>Strings and numbers of the host language\<close>

text \<open>
  A JavaScript string is a sequence of UTF-16 code units; \<open>length\<close>, indexing,
  \<open>includes\<close> and \<open>startsWith\<close> all work on code units. A code unit is modelled
  as a natural number (no arithmetic is done on them). Scores and thresholds are
  JavaScript numbers; they are modelled as exact rationals, so rounding of IEEE doubles
  is outside this development.
\<close>

type_synonym jsstring = "nat list"

text \<open>\<open>t.startsWith(q)\<close> and \<open>t.includes(q)\<close>.\<close>

definition startsWith :: "jsstring \<Rightarrow> jsstring \<Rightarrow> bool" where
  "startsWith t q = prefix q t"

definition includesStr :: "jsstring \<Rightarrow> jsstring \<Rightarrow> bool" where
  "includesStr t q = sublist q t"

text \<open>
  \<open>String.prototype.trim\<close> removes the code units of the ECMAScript productions
  WhiteSpace and LineTerminator from both ends.
\<close>

definition isWhiteSpace :: "nat \<Rightarrow> bool" where
  "isWhiteSpace c =
     (c = 9 \<or> c = 10 \<or> c = 11 \<or> c = 12 \<or> c = 13 \<or> c = 32 \<or> c = 160 \<or> c = 5760
      \<or> (8192 \<le> c \<and> c \<le> 8202) \<or> c = 8232 \<or> c = 8233 \<or> c = 8239 \<or> c = 8287
      \<or> c = 12288 \<or> c = 65279)"

definition trim :: "jsstring \<Rightarrow> jsstring" where
  "trim s = rev (dropWhile isWhiteSpace (rev (dropWhile isWhiteSpace s)))"

text \<open>
  \<open>String.prototype.toLowerCase\<close> is a built-in whose Unicode table is not part of
  the repository: every function that folds case takes it as the parameter \<open>lc\<close>.
  \<open>asciiLower\<close> is the instance used on concrete inputs; it agrees with the built-in
  on strings of ASCII and Bengali code units.
\<close>

definition asciiLower :: "jsstring \<Rightarrow> jsstring" where
  "asciiLower s = map (\<lambda>c. if 65 \<le> c \<and> c \<le> 90 then c + 32 else c) s"

text \<open>
  \<open>xs.slice(0, end)\<close> for an integral \<open>end\<close>: a negative \<open>end\<close> counts from
  the end of the array.
\<close>

definition slice0 :: "'a list \<Rightarrow> int \<Rightarrow> 'a list" where
  "slice0 xs e =
     (let len = int (length xs);
          final = (if e < 0 then max (len + e) 0 else min e len)
      in take (nat final) xs)"

section \<open>Data model\<close>

datatype LocationType = Division | District | Upazila

text \<open>
  \<open>AnyLocation\<close>: the attributes of a division, district or upazila that the search
  reads, and its identifier.
\<close>

record location =
  loc_id :: int
  name :: jsstring
  bnName :: jsstring
  slug :: jsstring

datatype field = Name | BnName | Slug

record searchResult =
  item :: location
  score :: rat
  matchedField :: field

record locationSearchResult =
  divisions :: "searchResult list"
  districts :: "searchResult list"
  upazilas :: "searchResult list"

text \<open>The three JSON data files, which the search functions read as module constants.\<close>

record catalog =
  divisionsData :: "location list"
  districtsData :: "location list"
  upazilasData :: "location list"

text \<open>
  \<open>SearchOptions\<close> as a caller passes it: every property is optional. A missing
  \<open>options\<close> argument is the record with every field \<open>None\<close>.
\<close>

record SearchOptions =
  includeEnglish' :: "bool option"
  includeBengali' :: "bool option"
  includeSlug' :: "bool option"
  limit' :: "int option"
  threshold' :: "rat option"
  caseSensitive' :: "bool option"
  types' :: "LocationType list option"

text \<open>\<open>Required<SearchOptions>\<close>: the options after the defaults are merged in.\<close>

record requiredOptions =
  includeEnglish :: bool
  includeBengali :: bool
  includeSlug :: bool
  limit :: int
  threshold :: rat
  caseSensitive :: bool
  types :: "LocationType list"

definition noOptions :: SearchOptions where
  "noOptions = \<lparr>includeEnglish' = None, includeBengali' = None, includeSlug' = None,
     limit' = None, threshold' = None, caseSensitive' = None, types' = None\<rparr>"

definition defaultSearchOptions :: requiredOptions where
  "defaultSearchOptions = \<lparr>includeEnglish = True, includeBengali = True, includeSlug = True,
     limit = 10, threshold = 0.3, caseSensitive = False,
     types = [Division, District, Upazila]\<rparr>"

text \<open>The object spread \<open>{ ...defaultSearchOptions, ...options }\<close>.\<close>

definition mergeOptions :: "SearchOptions \<Rightarrow> requiredOptions" where
  "mergeOptions options =
     \<lparr>includeEnglish = (case includeEnglish' options of None \<Rightarrow> includeEnglish defaultSearchOptions | Some v \<Rightarrow> v),
      includeBengali = (case includeBengali' options of None \<Rightarrow> includeBengali defaultSearchOptions | Some v \<Rightarrow> v),
      includeSlug = (case includeSlug' options of None \<Rightarrow> includeSlug defaultSearchOptions | Some v \<Rightarrow> v),
      limit = (case limit' options of None \<Rightarrow> limit defaultSearchOptions | Some v \<Rightarrow> v),
      threshold = (case threshold' options of None \<Rightarrow> threshold defaultSearchOptions | Some v \<Rightarrow> v),
      caseSensitive = (case caseSensitive' options of None \<Rightarrow> caseSensitive defaultSearchOptions | Some v \<Rightarrow> v),
      types = (case types' options of None \<Rightarrow> types defaultSearchOptions | Some v \<Rightarrow> v)\<rparr>"

section \<open>Similarity scorer\<close>

text \<open>
  \<open>levenshteinDistance\<close>: the matrix \<open>dp\<close> is a list of rows. \<open>initColumn\<close> and
  \<open>initRow\<close> are the two initialisation loops, \<open>levCell\<close> is the body of the inner
  loop, \<open>levRow\<close> the inner loop for one \<open>i\<close>.
\<close>

definition initColumn :: "nat \<Rightarrow> nat list list \<Rightarrow> nat list list" where
  "initColumn m dp = foldl (\<lambda>d i. d[i := (d ! i)[0 := i]]) dp [0..<m + 1]"

definition initRow :: "nat \<Rightarrow> nat list list \<Rightarrow> nat list list" where
  "initRow n dp = foldl (\<lambda>d j. d[0 := (d ! 0)[j := j]]) dp [0..<n + 1]"

definition levCell :: "jsstring \<Rightarrow> jsstring \<Rightarrow> nat \<Rightarrow> nat list list \<Rightarrow> nat \<Rightarrow> nat list list" where
  "levCell str1 str2 i dp j =
     (let row = dp ! i;
          prevRow = dp ! (i - 1);
          v = (if str1 ! (i - 1) = str2 ! (j - 1) then prevRow ! (j - 1)
               else min (prevRow ! (j - 1) + 1) (min (prevRow ! j + 1) (row ! (j - 1) + 1)))
      in dp[i := row[j := v]])"

definition levRow :: "jsstring \<Rightarrow> jsstring \<Rightarrow> nat list list \<Rightarrow> nat \<Rightarrow> nat list list" where
  "levRow str1 str2 dp i = foldl (levCell str1 str2 i) dp [1..<length str2 + 1]"

definition levenshteinDistance :: "jsstring \<Rightarrow> jsstring \<Rightarrow> nat" where
  "levenshteinDistance str1 str2 =
     (let m = length str1; n = length str2
      in if m = 0 then n
         else if n = 0 then m
         else let dp0 = replicate (m + 1) (replicate (n + 1) 0);
                  dp1 = initRow n (initColumn m dp0);
                  dp2 = foldl (levRow str1 str2) dp1 [1..<m + 1]
              in dp2 ! m ! n)"

definition calculateSimilarity :: "(jsstring \<Rightarrow> jsstring) \<Rightarrow> jsstring \<Rightarrow> jsstring \<Rightarrow> bool \<Rightarrow> rat" where
  "calculateSimilarity lc query target cs =
     (let q = (if cs then query else lc query);
          t = (if cs then target else lc target)
      in if q = t then 1
         else if includesStr t q then 0.8 + (of_nat (length q) / of_nat (length t)) * 0.2
         else if startsWith t q then 0.9
         else let distance = levenshteinDistance q t;
                  maxLen = max (length q) (length t)
              in max 0 (1 - of_nat distance / of_nat maxLen))"

section \<open>Field matcher\<close>

text \<open>The only exception the search code can raise.\<close>

datatype error = TypeError

text \<open>
  \<open>scores.reduce((best, current) => current.score > best.score ? current : best)\<close>:
  there is no initial value, so the first element starts the fold and an empty array
  raises a TypeError. An element of \<open>scores\<close> is the pair of a score and its field.
\<close>

fun reduceBest :: "(rat \<times> field) list \<Rightarrow> error + (rat \<times> field)" where
  "reduceBest [] = Inl TypeError"
| "reduceBest (s # ss) =
     Inr (foldl (\<lambda>best current. if fst current > fst best then current else best) s ss)"

definition searchInItem ::
  "(jsstring \<Rightarrow> jsstring) \<Rightarrow> location \<Rightarrow> jsstring \<Rightarrow> requiredOptions \<Rightarrow> error + searchResult option" where
  "searchInItem lc it query options =
     (let scores =
            (if includeEnglish options
             then [(calculateSimilarity lc query (name it) (caseSensitive options), Name)] else []) @
            (if includeBengali options
             then [(calculateSimilarity lc query (bnName it) (caseSensitive options), BnName)] else []) @
            (if includeSlug options
             then [(calculateSimilarity lc query (slug it) (caseSensitive options), Slug)] else [])
      in case reduceBest scores of
           Inl e \<Rightarrow> Inl e
         | Inr bestMatch \<Rightarrow>
             if fst bestMatch \<ge> threshold options
             then Inr (Some \<lparr>item = it, score = fst bestMatch, matchedField = snd bestMatch\<rparr>)
             else Inr None)"

section \<open>Ranked search\<close>

text \<open>
  The loop \<open>for (const x of data) { const r = searchInItem(x, ...); if (r) out.push(r) }\<close>
  with \<open>out\<close> as accumulator; an exception of \<open>searchInItem\<close> leaves the loop.
\<close>

fun searchItems ::
  "(jsstring \<Rightarrow> jsstring) \<Rightarrow> location list \<Rightarrow> jsstring \<Rightarrow> requiredOptions \<Rightarrow>
   searchResult list \<Rightarrow> error + searchResult list" where
  "searchItems lc [] query opts out = Inr out"
| "searchItems lc (x # xs) query opts out =
     (case searchInItem lc x query opts of
        Inl e \<Rightarrow> Inl e
      | Inr None \<Rightarrow> searchItems lc xs query opts out
      | Inr (Some r) \<Rightarrow> searchItems lc xs query opts (out @ [r]))"

text \<open>
  \<open>xs.sort((a, b) => b.score - a.score)\<close>: \<open>Array.prototype.sort\<close> is stable, and
  the comparator orders by descending score.
\<close>

definition sortByScore :: "searchResult list \<Rightarrow> searchResult list" where
  "sortByScore xs = sort_key (\<lambda>r. - score r) xs"

text \<open>One of the three blocks of \<open>search\<close>: scan, sort, slice.\<close>

definition searchCategory ::
  "(jsstring \<Rightarrow> jsstring) \<Rightarrow> location list \<Rightarrow> jsstring \<Rightarrow> requiredOptions \<Rightarrow>
   error + searchResult list" where
  "searchCategory lc data query opts =
     (case searchItems lc data query opts [] of
        Inl e \<Rightarrow> Inl e
      | Inr out \<Rightarrow> Inr (slice0 (sortByScore out) (limit opts)))"

definition search ::
  "(jsstring \<Rightarrow> jsstring) \<Rightarrow> catalog \<Rightarrow> jsstring \<Rightarrow> SearchOptions \<Rightarrow> error + locationSearchResult" where
  "search lc cat query options =
     (let opts = mergeOptions options;
          result = \<lparr>divisions = [], districts = [], upazilas = []\<rparr>
      in if query = [] \<or> length (trim query) = 0 then Inr result
         else
           let trimmedQuery = trim query
           in case (if Division \<in> set (types opts)
                    then searchCategory lc (divisionsData cat) trimmedQuery opts
                    else Inr (divisions result)) of
                Inl e \<Rightarrow> Inl e
              | Inr ds \<Rightarrow>
                  (case (if District \<in> set (types opts)
                         then searchCategory lc (districtsData cat) trimmedQuery opts
                         else Inr (districts result)) of
                     Inl e \<Rightarrow> Inl e
                   | Inr dis \<Rightarrow>
                       (case (if Upazila \<in> set (types opts)
                              then searchCategory lc (upazilasData cat) trimmedQuery opts
                              else Inr (upazilas result)) of
                          Inl e \<Rightarrow> Inl e
                        | Inr ups \<Rightarrow> Inr \<lparr>divisions = ds, districts = dis, upazilas = ups\<rparr>)))"

section \<open>Derived operations\<close>

definition quickSearch ::
  "(jsstring \<Rightarrow> jsstring) \<Rightarrow> catalog \<Rightarrow> jsstring \<Rightarrow> SearchOptions \<Rightarrow> error + location option" where
  "quickSearch lc cat query options =
     (case search lc cat query (options\<lparr>limit' := Some 1\<rparr>) of
        Inl e \<Rightarrow> Inl e
      | Inr result \<Rightarrow>
          let allResults = divisions result @ districts result @ upazilas result
          in if length allResults = 0 then Inr None
             else case sortByScore allResults of
                    [] \<Rightarrow> Inr None
                  | first # _ \<Rightarrow> Inr (Some (item first)))"

definition searchDivisions ::
  "(jsstring \<Rightarrow> jsstring) \<Rightarrow> catalog \<Rightarrow> jsstring \<Rightarrow> SearchOptions \<Rightarrow> error + searchResult list" where
  "searchDivisions lc cat query options =
     (case search lc cat query (options\<lparr>types' := Some [Division]\<rparr>) of
        Inl e \<Rightarrow> Inl e | Inr result \<Rightarrow> Inr (divisions result))"

definition searchDistricts ::
  "(jsstring \<Rightarrow> jsstring) \<Rightarrow> catalog \<Rightarrow> jsstring \<Rightarrow> SearchOptions \<Rightarrow> error + searchResult list" where
  "searchDistricts lc cat query options =
     (case search lc cat query (options\<lparr>types' := Some [District]\<rparr>) of
        Inl e \<Rightarrow> Inl e | Inr result \<Rightarrow> Inr (districts result))"

definition searchUpazilas ::
  "(jsstring \<Rightarrow> jsstring) \<Rightarrow> catalog \<Rightarrow> jsstring \<Rightarrow> SearchOptions \<Rightarrow> error + searchResult list" where
  "searchUpazilas lc cat query options =
     (case search lc cat query (options\<lparr>types' := Some [Upazila]\<rparr>) of
        Inl e \<Rightarrow> Inl e | Inr result \<Rightarrow> Inr (upazilas result))"

definition fuzzySearch ::
  "(jsstring \<Rightarrow> jsstring) \<Rightarrow> catalog \<Rightarrow> jsstring \<Rightarrow> SearchOptions \<Rightarrow> error + locationSearchResult" where
  "fuzzySearch lc cat query options = search lc cat query (options\<lparr>threshold' := Some 0.4\<rparr>)"

definition searchBengali ::
  "(jsstring \<Rightarrow> jsstring) \<Rightarrow> catalog \<Rightarrow> jsstring \<Rightarrow> SearchOptions \<Rightarrow> error + locationSearchResult" where
  "searchBengali lc cat query options =
     search lc cat query
       (options\<lparr>includeEnglish' := Some False, includeBengali' := Some True, includeSlug' := Some False\<rparr>)"

definition searchEnglish ::
  "(jsstring \<Rightarrow> jsstring) \<Rightarrow> catalog \<Rightarrow> jsstring \<Rightarrow> SearchOptions \<Rightarrow> error + locationSearchResult" where
  "searchEnglish lc cat query options =
     search lc cat query
       (options\<lparr>includeEnglish' := Some True, includeBengali' := Some False, includeSlug' := Some False\<rparr>)"

section \<open>Autocomplete\<close>

text \<open>
  An element of the returned array, and the same with the \<open>priority\<close> that the
  working array \<open>results\<close> carries until the final \<open>map\<close> drops it.
\<close>

record entry =
  entryName :: jsstring
  entryBnName :: jsstring
  entryType :: LocationType
  entryItem :: location

record rankedEntry = entry +
  priority :: int

text \<open>
  The closure \<open>checkStartsWith\<close>; \<open>opts\<close> and \<open>q\<close> are the variables it captures,
  \<open>results\<close> the array it pushes to.
\<close>

definition checkStartsWith ::
  "(jsstring \<Rightarrow> jsstring) \<Rightarrow> requiredOptions \<Rightarrow> jsstring \<Rightarrow>
   rankedEntry list \<Rightarrow> jsstring \<Rightarrow> jsstring \<Rightarrow> LocationType \<Rightarrow> location \<Rightarrow> rankedEntry list" where
  "checkStartsWith lc opts q results nm bn ty it =
     (let nameToCheck = (if caseSensitive opts then nm else lc nm);
          bnNameToCheck = bn
      in if includeEnglish opts \<and> startsWith nameToCheck q
         then results @ [\<lparr>entryName = nm, entryBnName = bn, entryType = ty, entryItem = it, priority = 1\<rparr>]
         else if includeBengali opts \<and> startsWith bnNameToCheck q
         then results @ [\<lparr>entryName = nm, entryBnName = bn, entryType = ty, entryItem = it, priority = 2\<rparr>]
         else results)"

text \<open>One of the three loops of \<open>autocomplete\<close>.\<close>

definition checkAll ::
  "(jsstring \<Rightarrow> jsstring) \<Rightarrow> requiredOptions \<Rightarrow> jsstring \<Rightarrow> LocationType \<Rightarrow>
   rankedEntry list \<Rightarrow> location list \<Rightarrow> rankedEntry list" where
  "checkAll lc opts q ty results data =
     foldl (\<lambda>res x. checkStartsWith lc opts q res (name x) (bnName x) ty x) results data"

definition autocomplete ::
  "(jsstring \<Rightarrow> jsstring) \<Rightarrow> catalog \<Rightarrow> jsstring \<Rightarrow> SearchOptions \<Rightarrow> entry list" where
  "autocomplete lc cat query options =
     (if query = [] \<or> length (trim query) = 0 then []
      else
        let opts = mergeOptions options;
            q = (if caseSensitive opts then trim query else lc (trim query));
            results0 = [];
            results1 = (if Division \<in> set (types opts)
                        then checkAll lc opts q Division results0 (divisionsData cat) else results0);
            results2 = (if District \<in> set (types opts)
                        then checkAll lc opts q District results1 (districtsData cat) else results1);
            results3 = (if Upazila \<in> set (types opts)
                        then checkAll lc opts q Upazila results2 (upazilasData cat) else results2)
        in map entry.truncate (slice0 (sort_key priority results3) (limit opts)))"

section \<open>Notions used to state and prove the properties\<close>

text \<open>The string that \<open>calculateSimilarity\<close> compares: folded unless the search is case sensitive.\<close>

abbreviation folded :: "(jsstring \<Rightarrow> jsstring) \<Rightarrow> bool \<Rightarrow> jsstring \<Rightarrow> jsstring" where
  "folded lc cs s \<equiv> (if cs then s else lc s)"

text \<open>
  Invariant of the matrix of \<open>levenshteinDistance\<close>: it has \<open>m + 1\<close> rows of \<open>n + 1\<close>
  cells, and a cell that is already computed holds zero only where the two prefixes are
  equal. \<open>levDone i j\<close> is the set of cells computed when the loops reach \<open>(i, j)\<close>.
\<close>

definition levShape :: "nat \<Rightarrow> nat \<Rightarrow> nat list list \<Rightarrow> bool" where
  "levShape m n dp = (length dp = m + 1 \<and> (\<forall>a\<le>m. length (dp ! a) = n + 1))"

definition levDone :: "nat \<Rightarrow> nat \<Rightarrow> nat \<Rightarrow> nat \<Rightarrow> bool" where
  "levDone i j a b = (a = 0 \<or> b = 0 \<or> a < i \<or> (a = i \<and> b < j))"

definition levInv :: "jsstring \<Rightarrow> jsstring \<Rightarrow> nat \<Rightarrow> nat \<Rightarrow> nat list list \<Rightarrow> bool" where
  "levInv str1 str2 i j dp =
     (levShape (length str1) (length str2) dp \<and>
      (\<forall>a b. a \<le> length str1 \<longrightarrow> b \<le> length str2 \<longrightarrow> levDone i j a b \<longrightarrow>
         dp ! a ! b = 0 \<longrightarrow> take a str1 = take b str2))"

text \<open>
  The matches of a collection in catalog order: what the scan of one category has pushed
  when no call of \<open>searchInItem\<close> raised.
\<close>

definition matchOf ::
  "(jsstring \<Rightarrow> jsstring) \<Rightarrow> jsstring \<Rightarrow> requiredOptions \<Rightarrow> location \<Rightarrow> searchResult option" where
  "matchOf lc query opts x =
     (case searchInItem lc x query opts of Inr (Some r) \<Rightarrow> Some r | _ \<Rightarrow> None)"

definition matchesOf ::
  "(jsstring \<Rightarrow> jsstring) \<Rightarrow> jsstring \<Rightarrow> requiredOptions \<Rightarrow> location list \<Rightarrow> searchResult list" where
  "matchesOf lc query opts data = List.map_filter (matchOf lc query opts) data"

text \<open>
  \<open>search\<close> and \<open>autocomplete\<close> after the test for a blank query, on the trimmed query
  and the merged options.
\<close>

definition searchTrimmed ::
  "(jsstring \<Rightarrow> jsstring) \<Rightarrow> catalog \<Rightarrow> jsstring \<Rightarrow> requiredOptions \<Rightarrow> error + locationSearchResult" where
  "searchTrimmed lc cat trimmedQuery opts =
     (case (if Division \<in> set (types opts)
            then searchCategory lc (divisionsData cat) trimmedQuery opts else Inr []) of
        Inl e \<Rightarrow> Inl e
      | Inr ds \<Rightarrow>
          (case (if District \<in> set (types opts)
                 then searchCategory lc (districtsData cat) trimmedQuery opts else Inr []) of
             Inl e \<Rightarrow> Inl e
           | Inr dis \<Rightarrow>
               (case (if Upazila \<in> set (types opts)
                      then searchCategory lc (upazilasData cat) trimmedQuery opts else Inr []) of
                  Inl e \<Rightarrow> Inl e
                | Inr ups \<Rightarrow> Inr \<lparr>divisions = ds, districts = dis, upazilas = ups\<rparr>)))"

definition autocompleteResults ::
  "(jsstring \<Rightarrow> jsstring) \<Rightarrow> catalog \<Rightarrow> jsstring \<Rightarrow> requiredOptions \<Rightarrow> rankedEntry list" where
  "autocompleteResults lc cat q opts =
     (let results1 = (if Division \<in> set (types opts)
                      then checkAll lc opts q Division [] (divisionsData cat) else []);
          results2 = (if District \<in> set (types opts)
                      then checkAll lc opts q District results1 (districtsData cat) else results1)
      in if Upazila \<in> set (types opts)
         then checkAll lc opts q Upazila results2 (upazilasData cat) else results2)"

definition autocompleteTrimmed ::
  "(jsstring \<Rightarrow> jsstring) \<Rightarrow> catalog \<Rightarrow> jsstring \<Rightarrow> requiredOptions \<Rightarrow> entry list" where
  "autocompleteTrimmed lc cat trimmedQuery opts =
     map entry.truncate
       (slice0 (sort_key priority
          (autocompleteResults lc cat (folded lc (caseSensitive opts) trimmedQuery) opts))
          (limit opts))"

text \<open>
  What \<open>search\<close> leaves in one category of the result when the query is not blank:
  the matches of the category, sorted and sliced, if \<open>opts.types\<close> lists the category.
\<close>

definition categoryResult ::
  "(jsstring \<Rightarrow> jsstring) \<Rightarrow> jsstring \<Rightarrow> requiredOptions \<Rightarrow> LocationType \<Rightarrow>
   location list \<Rightarrow> searchResult list" where
  "categoryResult lc query opts ty data =
     (if ty \<in> set (types opts)
      then slice0 (sortByScore (matchesOf lc (trim query) opts data)) (limit opts) else [])"

text \<open>
  A result sequence is ranked over a collection when its scores never increase and, for
  each score, the entities with that score come in the order of the collection.
\<close>

definition rankedOver :: "searchResult list \<Rightarrow> location list \<Rightarrow> bool" where
  "rankedOver rs data =
     (sorted_wrt (\<lambda>a b. score b \<le> score a) rs \<and>
      (\<forall>k. subseq (map item (filter (\<lambda>r. score r = k) rs)) data))"

text \<open>
  The fields that the options enable, in the order in which \<open>searchInItem\<close> scores them,
  the value and the score of one field of an entity, and the best-field score of an
  entity: the maximum of its scores over the enabled fields.
\<close>

definition enabledFields :: "requiredOptions \<Rightarrow> field list" where
  "enabledFields opts =
     (if includeEnglish opts then [Name] else []) @
     (if includeBengali opts then [BnName] else []) @
     (if includeSlug opts then [Slug] else [])"

definition fieldValue :: "location \<Rightarrow> field \<Rightarrow> jsstring" where
  "fieldValue x f = (case f of Name \<Rightarrow> name x | BnName \<Rightarrow> bnName x | Slug \<Rightarrow> slug x)"

definition fieldScore ::
  "(jsstring \<Rightarrow> jsstring) \<Rightarrow> jsstring \<Rightarrow> requiredOptions \<Rightarrow> location \<Rightarrow> field \<Rightarrow> rat" where
  "fieldScore lc query opts x f = calculateSimilarity lc query (fieldValue x f) (caseSensitive opts)"

definition bestFieldScore ::
  "(jsstring \<Rightarrow> jsstring) \<Rightarrow> jsstring \<Rightarrow> requiredOptions \<Rightarrow> location \<Rightarrow> rat" where
  "bestFieldScore lc query opts x = Max (set (map (fieldScore lc query opts x) (enabledFields opts)))"

text \<open>The entities of the categories that \<open>opts.types\<close> lists, in the order of the scan.\<close>

definition searchedItems :: "catalog \<Rightarrow> requiredOptions \<Rightarrow> location list" where
  "searchedItems cat opts =
     (if Division \<in> set (types opts) then divisionsData cat else []) @
     (if District \<in> set (types opts) then districtsData cat else []) @
     (if Upazila \<in> set (types opts) then upazilasData cat else [])"

text \<open>
  Autocomplete, as the specification words it: the candidates are the entities of the
  listed categories in catalog iteration order (divisions, districts, upazilas); a
  candidate matches on the primary name when English is enabled and the name, folded
  unless the search is case sensitive, starts with the query; it matches on the secondary
  name when Bengali is enabled and the Bengali name as stored starts with the query.
\<close>

definition mkEntry :: "LocationType \<Rightarrow> location \<Rightarrow> entry" where
  "mkEntry ty x = \<lparr>entryName = name x, entryBnName = bnName x, entryType = ty, entryItem = x\<rparr>"

definition candidates :: "catalog \<Rightarrow> requiredOptions \<Rightarrow> entry list" where
  "candidates cat opts =
     (if Division \<in> set (types opts) then map (mkEntry Division) (divisionsData cat) else []) @
     (if District \<in> set (types opts) then map (mkEntry District) (districtsData cat) else []) @
     (if Upazila \<in> set (types opts) then map (mkEntry Upazila) (upazilasData cat) else [])"

definition primaryMatch :: "(jsstring \<Rightarrow> jsstring) \<Rightarrow> requiredOptions \<Rightarrow> jsstring \<Rightarrow> entry \<Rightarrow> bool" where
  "primaryMatch lc opts q e =
     (includeEnglish opts \<and> startsWith (folded lc (caseSensitive opts) (entryName e)) q)"

definition secondaryMatch :: "requiredOptions \<Rightarrow> jsstring \<Rightarrow> entry \<Rightarrow> bool" where
  "secondaryMatch opts q e = (includeBengali opts \<and> startsWith (entryBnName e) q)"

text \<open>The query as \<open>autocomplete\<close> compares it.\<close>

definition autocompleteQuery :: "(jsstring \<Rightarrow> jsstring) \<Rightarrow> requiredOptions \<Rightarrow> jsstring \<Rightarrow> jsstring" where
  "autocompleteQuery lc opts query = folded lc (caseSensitive opts) (trim query)"

text \<open>The priority that \<open>checkStartsWith\<close> gives a candidate, if it pushes it.\<close>

definition rankOf :: "(jsstring \<Rightarrow> jsstring) \<Rightarrow> requiredOptions \<Rightarrow> jsstring \<Rightarrow> entry \<Rightarrow> int option" where
  "rankOf lc opts q e =
     (if primaryMatch lc opts q e then Some 1
      else if secondaryMatch opts q e then Some 2 else None)"

definition ranked :: "(jsstring \<Rightarrow> jsstring) \<Rightarrow> requiredOptions \<Rightarrow> jsstring \<Rightarrow> entry \<Rightarrow> rankedEntry option" where
  "ranked lc opts q e = map_option (\<lambda>p. entry.extend e (rankedEntry.fields p)) (rankOf lc opts q e)"

text \<open>A catalog with the slug of every entity replaced.\<close>

definition mapCatalog :: "(location \<Rightarrow> location) \<Rightarrow> catalog \<Rightarrow> catalog" where
  "mapCatalog f cat =
     \<lparr>divisionsData = map f (divisionsData cat), districtsData = map f (districtsData cat),
      upazilasData = map f (upazilasData cat)\<rparr>"

section \<open>Example data\<close>

text \<open>
  A string literal of ASCII characters as code units, and entities that the package
  documentation shows. Bengali names are given by their code units.
\<close>

definition str :: "string \<Rightarrow> jsstring" where
  "str s = map of_char s"

definition dhakaDivision :: location where
  "dhakaDivision = \<lparr>loc_id = 1, name = str ''Dhaka'', bnName = [2466, 2494, 2453, 2494],
     slug = str ''dhaka''\<rparr>"

definition sylhetDivision :: location where
  "sylhetDivision = \<lparr>loc_id = 6, name = str ''Sylhet'', bnName = [2488, 2495, 2482, 2503, 2463],
     slug = str ''sylhet''\<rparr>"

definition dhakaDistrict :: location where
  "dhakaDistrict = \<lparr>loc_id = 18, name = str ''Dhaka'', bnName = [2466, 2494, 2453, 2494],
     slug = str ''dhaka''\<rparr>"

definition savarUpazila :: location where
  "savarUpazila = \<lparr>loc_id = 151, name = str ''Savar'', bnName = [2488, 2494, 2477, 2494, 2480],
     slug = str ''savar''\<rparr>"

definition exampleCatalog :: catalog where
  "exampleCatalog = \<lparr>divisionsData = [dhakaDivision, sylhetDivision],
     districtsData = [dhakaDistrict], upazilasData = [savarUpazila]\<rparr>"

text \<open>
  Two hypothetical entities whose secondary name is written in Latin letters, one in lower
  case and one capitalised, and catalogs that hold them.
\<close>

definition romanLower :: location where
  "romanLower = \<lparr>loc_id = 1001, name = str ''Sample'', bnName = str ''dhaka'',
     slug = str ''sample''\<rparr>"


definition mixedCatalog :: catalog where
  "mixedCatalog = \<lparr>divisionsData = [romanLower, dhakaDivision],
     districtsData = [dhakaDistrict], upazilasData = [savarUpazila]\<rparr>"


text \<open>
  Two hypothetical entities for the choice of the best field: the first is close to the
  query dhaka in its name, the second equals it in its slug only. The catalog lists the
  first as a division and the second as an upazila.
\<close>

definition nearName :: location where
  "nearName = \<lparr>loc_id = 1003, name = str ''dhakb'', bnName = [2488, 2494, 2477, 2494, 2480],
     slug = str ''dhakb''\<rparr>"

definition slugOnly :: location where
  "slugOnly = \<lparr>loc_id = 1004, name = str ''zzzzz'', bnName = [2466, 2494, 2453, 2494],
     slug = str ''dhaka''\<rparr>"

definition fieldCatalog :: catalog where
  "fieldCatalog = \<lparr>divisionsData = [nearName], districtsData = [], upazilasData = [slugOnly]\<rparr>"

text \<open>Options used on the example catalog.\<close>

definition allFieldsOff :: SearchOptions where
  "allFieldsOff = noOptions\<lparr>includeEnglish' := Some False, includeBengali' := Some False,
     includeSlug' := Some False\<rparr>"

definition negativeLimit :: SearchOptions where
  "negativeLimit = noOptions\<lparr>limit' := Some (- 1), threshold' := Some 0\<rparr>"

definition limitOne :: SearchOptions where
  "limitOne = noOptions\<lparr>limit' := Some 1\<rparr>"

definition acceptAll :: SearchOptions where
  "acceptAll = noOptions\<lparr>threshold' := Some 0\<rparr>"

definition districtsOnly :: SearchOptions where
  "districtsOnly = noOptions\<lparr>types' := Some [District]\<rparr>"

section \<open>The edit distance\<close>

lemma foldl_upt_invariant:
  assumes "P a s"
    and "\<And>k s. a \<le> k \<Longrightarrow> k < b \<Longrightarrow> P k s \<Longrightarrow> P (Suc k) (f s k)"
    and "a \<le> b"
  shows "P b (foldl f s [a..<b])"
  using assms(3,2)
proof (induction b)
  case 0
  with assms(1) show ?case by simp
next
  case (Suc b)
  show ?case
  proof (cases "a = Suc b")
    case True
    with assms(1) show ?thesis by simp
  next
    case False
    with Suc.prems(1) have ab: "a \<le> b" by simp
    have "P b (foldl f s [a..<b])"
      by (rule Suc.IH [OF ab]) (simp add: Suc.prems(2))
    then have "P (Suc b) (f (foldl f s [a..<b]) b)"
      by (rule Suc.prems(2) [OF ab, of "foldl f s [a..<b]", simplified])
    with ab show ?thesis by simp
  qed
qed

lemma levShape_update:
  assumes "levShape m n d" and "i \<le> m"
  shows "levShape m n (d[i := (d ! i)[j := v]])"
  using assms by (auto simp: levShape_def nth_list_update)

lemma nth_cell_update:
  assumes "levShape m n d" and "i \<le> m" and "j \<le> n" and "a \<le> m" and "b \<le> n"
  shows "d[i := (d ! i)[j := v]] ! a ! b = (if a = i \<and> b = j then v else d ! a ! b)"
  using assms by (auto simp: levShape_def nth_list_update)

lemma initColumn_props:
  assumes "levShape m n dp"
  shows "levShape m n (initColumn m dp) \<and> (\<forall>a\<le>m. initColumn m dp ! a ! 0 = a)"
proof -
  let ?P = "\<lambda>k d. levShape m n d \<and> (\<forall>a<k. d ! a ! 0 = a)"
  have "?P (m + 1) (foldl (\<lambda>d i. d[i := (d ! i)[0 := i]]) dp [0..<m + 1])"
  proof (rule foldl_upt_invariant [where P = "?P" and f = "\<lambda>d i. d[i := (d ! i)[0 := i]]"])
    show "?P 0 dp" using assms by simp
  next
    fix k d assume k: "0 \<le> k" "k < m + 1" and P: "?P k d"
    then have km: "k \<le> m" and sh: "levShape m n d" by simp_all
    have "d[k := (d ! k)[0 := k]] ! a ! 0 = a" if "a < Suc k" for a
      using that nth_cell_update [OF sh km, of 0 a 0 k] km P by simp
    with levShape_update [OF sh km] show "?P (Suc k) (d[k := (d ! k)[0 := k]])"
      by blast
  qed simp
  then show ?thesis by (simp add: initColumn_def)
qed

lemma initRow_props:
  assumes "levShape m n dp" and "\<forall>a\<le>m. dp ! a ! 0 = a"
  shows "levShape m n (initRow n dp) \<and> (\<forall>a\<le>m. initRow n dp ! a ! 0 = a)
         \<and> (\<forall>b\<le>n. initRow n dp ! 0 ! b = b)"
proof -
  let ?P = "\<lambda>k d. levShape m n d \<and> (\<forall>a\<le>m. d ! a ! 0 = a) \<and> (\<forall>b<k. d ! 0 ! b = b)"
  have "?P (n + 1) (foldl (\<lambda>d j. d[0 := (d ! 0)[j := j]]) dp [0..<n + 1])"
  proof (rule foldl_upt_invariant [where P = "?P" and f = "\<lambda>d j. d[0 := (d ! 0)[j := j]]"])
    show "?P 0 dp" using assms by simp
  next
    fix k d assume k: "0 \<le> k" "k < n + 1" and P: "?P k d"
    then have kn: "k \<le> n" and sh: "levShape m n d" by simp_all
    have c: "d[0 := (d ! 0)[k := k]] ! a ! b = (if a = 0 \<and> b = k then k else d ! a ! b)"
      if "a \<le> m" "b \<le> n" for a b
      using nth_cell_update [OF sh _ kn that, of 0 k] by simp
    have "d[0 := (d ! 0)[k := k]] ! a ! 0 = a" if "a \<le> m" for a
      using c [OF that, of 0] P that by auto
    moreover have "d[0 := (d ! 0)[k := k]] ! 0 ! b = b" if "b < Suc k" for b
      using c [of 0 b] P that kn by auto
    moreover have "levShape m n (d[0 := (d ! 0)[k := k]])"
      using levShape_update [OF sh, of 0] by simp
    ultimately show "?P (Suc k) (d[0 := (d ! 0)[k := k]])"
      by blast
  qed simp
  then show ?thesis by (simp add: initRow_def)
qed

lemma levInv_init:
  assumes "dp = initRow (length str2) (initColumn (length str1)
             (replicate (length str1 + 1) (replicate (length str2 + 1) 0)))"
  shows "levInv str1 str2 1 1 dp"
proof -
  let ?m = "length str1" and ?n = "length str2"
  have s0: "levShape ?m ?n (replicate (?m + 1) (replicate (?n + 1) 0))"
    unfolding levShape_def by (simp del: replicate.simps add: nth_replicate)
  note c = initColumn_props [OF s0]
  from c have r: "levShape ?m ?n dp \<and> (\<forall>a\<le>?m. dp ! a ! 0 = a) \<and> (\<forall>b\<le>?n. dp ! 0 ! b = b)"
    unfolding assms by (intro initRow_props) auto
  have "take a str1 = take b str2"
    if "a \<le> ?m" "b \<le> ?n" "levDone 1 1 a b" "dp ! a ! b = 0" for a b
  proof -
    from that(3) have "a = 0 \<or> b = 0" by (auto simp: levDone_def)
    then have "a = 0 \<and> b = 0"
    proof
      assume "a = 0"
      with r that show ?thesis by auto
    next
      assume "b = 0"
      with r that show ?thesis by auto
    qed
    then show ?thesis by simp
  qed
  with r show ?thesis
    unfolding levInv_def by blast
qed

lemma levCell_step:
  assumes inv: "levInv str1 str2 i j dp"
    and i: "1 \<le> i" "i \<le> length str1" and j: "1 \<le> j" "j \<le> length str2"
  shows "levInv str1 str2 i (Suc j) (levCell str1 str2 i dp j)"
proof -
  let ?m = "length str1" and ?n = "length str2"
  let ?v = "(if str1 ! (i - 1) = str2 ! (j - 1) then dp ! (i - 1) ! (j - 1)
               else min (dp ! (i - 1) ! (j - 1) + 1) (min (dp ! (i - 1) ! j + 1) (dp ! i ! (j - 1) + 1)))"
  have cell: "levCell str1 str2 i dp j = dp[i := (dp ! i)[j := ?v]]"
    by (simp add: levCell_def Let_def)
  from inv have shape: "levShape ?m ?n dp" by (simp add: levInv_def)
  have shape': "levShape ?m ?n (dp[i := (dp ! i)[j := ?v]])"
    using shape i by (auto simp: levShape_def nth_list_update)
  have nth: "dp[i := (dp ! i)[j := ?v]] ! a ! b = (if a = i \<and> b = j then ?v else dp ! a ! b)"
    if "a \<le> ?m" "b \<le> ?n" for a b
    using that shape i j by (auto simp: levShape_def nth_list_update)
  have zero: "take i str1 = take j str2" if "?v = 0"
  proof -
    from that have eq: "str1 ! (i - 1) = str2 ! (j - 1)" and z: "dp ! (i - 1) ! (j - 1) = 0"
      by (auto split: if_splits)
    have "levDone i j (i - 1) (j - 1)" using i by (simp add: levDone_def)
    with inv z i j have "take (i - 1) str1 = take (j - 1) str2"
      by (simp add: levInv_def)
    moreover have "take i str1 = take (i - 1) str1 @ [str1 ! (i - 1)]"
      using i take_Suc_conv_app_nth [of "i - 1" str1] by simp
    moreover have "take j str2 = take (j - 1) str2 @ [str2 ! (j - 1)]"
      using j take_Suc_conv_app_nth [of "j - 1" str2] by simp
    ultimately show ?thesis using eq by simp
  qed
  have "take a str1 = take b str2"
    if ab: "a \<le> ?m" "b \<le> ?n" and d: "levDone i (Suc j) a b"
      and z: "dp[i := (dp ! i)[j := ?v]] ! a ! b = 0" for a b
  proof (cases "a = i \<and> b = j")
    case True
    with z nth [OF ab] have "?v = 0" by simp
    with zero True show ?thesis by simp
  next
    case False
    with d have "levDone i j a b" by (auto simp: levDone_def)
    moreover have "dp ! a ! b = 0"
    proof -
      from False have "(if a = i \<and> b = j then ?v else dp ! a ! b) = dp ! a ! b"
        by (rule if_not_P)
      with nth [OF ab] z show ?thesis by (simp only:)
    qed
    ultimately show ?thesis using inv ab by (simp add: levInv_def)
  qed
  with shape' show ?thesis
    unfolding cell levInv_def by blast
qed

lemma levRow_step:
  assumes inv: "levInv str1 str2 i 1 dp" and i: "1 \<le> i" "i \<le> length str1"
  shows "levInv str1 str2 (Suc i) 1 (levRow str1 str2 dp i)"
proof -
  have "levInv str1 str2 i (length str2 + 1) (foldl (levCell str1 str2 i) dp [1..<length str2 + 1])"
  proof (rule foldl_upt_invariant [where P = "levInv str1 str2 i"])
    show "levInv str1 str2 i 1 dp" by (rule inv)
  next
    fix k d assume "1 \<le> k" "k < length str2 + 1" "levInv str1 str2 i k d"
    then show "levInv str1 str2 i (Suc k) (levCell str1 str2 i d k)"
      using i by (intro levCell_step) auto
  qed simp
  then have "levInv str1 str2 i (length str2 + 1) (levRow str1 str2 dp i)"
    by (simp only: levRow_def)
  moreover have "levDone i (length str2 + 1) a b" if "levDone (Suc i) 1 a b" "b \<le> length str2" for a b
    using that by (auto simp: levDone_def)
  ultimately show ?thesis
    unfolding levInv_def by blast
qed

lemma levenshteinDistance_zero:
  assumes "levenshteinDistance str1 str2 = 0"
  shows "str1 = str2"
proof (cases "str1 = [] \<or> str2 = []")
  case True
  with assms show ?thesis
    by (auto simp: levenshteinDistance_def Let_def split: if_splits)
next
  case False
  let ?m = "length str1" and ?n = "length str2"
  define dp1 where "dp1 = initRow ?n (initColumn ?m (replicate (?m + 1) (replicate (?n + 1) 0)))"
  define dp2 where "dp2 = foldl (levRow str1 str2) dp1 [1..<?m + 1]"
  have "levInv str1 str2 (?m + 1) 1 dp2"
    unfolding dp2_def
  proof (rule foldl_upt_invariant [where P = "\<lambda>i. levInv str1 str2 i 1"])
    show "levInv str1 str2 1 1 dp1" by (rule levInv_init) (simp add: dp1_def)
  next
    fix k d assume "1 \<le> k" "k < ?m + 1" "levInv str1 str2 k 1 d"
    then show "levInv str1 str2 (Suc k) 1 (levRow str1 str2 d k)"
      by (intro levRow_step) auto
  qed simp
  moreover from False assms have "dp2 ! ?m ! ?n = 0"
    by (simp add: levenshteinDistance_def Let_def dp2_def dp1_def)
  moreover have "levDone (?m + 1) 1 ?m ?n" by (simp add: levDone_def)
  ultimately have "take ?m str1 = take ?n str2"
    unfolding levInv_def by blast
  then show ?thesis by simp
qed

section \<open>The similarity score\<close>

lemma includesStr_length:
  assumes "includesStr t q" and "q \<noteq> t"
  shows "length q < length t"
proof -
  from assms(1) obtain ps ss where t: "t = ps @ q @ ss"
    by (auto simp: includesStr_def sublist_def)
  with assms(2) have "ps \<noteq> [] \<or> ss \<noteq> []" by auto
  with t show ?thesis by auto
qed

lemma startsWith_includesStr: "startsWith t q \<Longrightarrow> includesStr t q"
  by (simp add: startsWith_def includesStr_def)

lemma containment_value:
  fixes a b :: nat
  assumes "a < b"
  shows "(0.8::rat) \<le> 0.8 + (of_nat a / of_nat b) * 0.2" and "0.8 + (of_nat a / of_nat b) * 0.2 < (1::rat)"
proof -
  have "(0::rat) \<le> of_nat a / of_nat b" by simp
  then show "(0.8::rat) \<le> 0.8 + (of_nat a / of_nat b) * 0.2" by simp
  from assms have "(of_nat a :: rat) / of_nat b < 1" by simp
  then show "0.8 + (of_nat a / of_nat b) * 0.2 < (1::rat)" by simp
qed

lemma calculateSimilarity_unfold:
  "calculateSimilarity lc query target cs =
     (if folded lc cs query = folded lc cs target then 1
      else if includesStr (folded lc cs target) (folded lc cs query)
      then 0.8 + (of_nat (length (folded lc cs query)) / of_nat (length (folded lc cs target))) * 0.2
      else max 0 (1 - of_nat (levenshteinDistance (folded lc cs query) (folded lc cs target))
                     / of_nat (max (length (folded lc cs query)) (length (folded lc cs target)))))"
proof -
  have drop: "(if a then x else if b then y else if c then z else w) = (if a then x else if b then y else w)"
    if "c \<Longrightarrow> b" for a b c and x y z w :: rat
    using that by auto
  show ?thesis
    unfolding calculateSimilarity_def Let_def
    by (rule drop) (rule startsWith_includesStr)
qed

lemma lev_branch_value:
  fixes d m :: nat
  assumes "0 < d" and "0 < m"
  shows "(0::rat) \<le> max 0 (1 - of_nat d / of_nat m)" and "max 0 (1 - of_nat d / of_nat m) < (1::rat)"
proof -
  show "(0::rat) \<le> max 0 (1 - of_nat d / of_nat m)" by simp
  from assms have "(0::rat) < of_nat d / of_nat m" by simp
  then show "max 0 (1 - of_nat d / of_nat m) < (1::rat)" by simp
qed

lemma calculateSimilarity_equal:
  assumes "folded lc cs query = folded lc cs target"
  shows "calculateSimilarity lc query target cs = 1"
  using assms unfolding calculateSimilarity_unfold by simp

lemma calculateSimilarity_unequal:
  assumes ne: "folded lc cs query \<noteq> folded lc cs target"
  shows "0 \<le> calculateSimilarity lc query target cs \<and> calculateSimilarity lc query target cs < 1"
proof -
  let ?q = "folded lc cs query" and ?t = "folded lc cs target"
  show ?thesis
  proof (cases "includesStr ?t ?q")
    case True
    then have "length ?q < length ?t" using ne by (rule includesStr_length)
    from containment_value [OF this] have "0 \<le> 0.8 + (rat_of_nat (length ?q) / rat_of_nat (length ?t)) * 0.2"
      and "0.8 + (rat_of_nat (length ?q) / rat_of_nat (length ?t)) * 0.2 < 1"
      by linarith+
    with True ne show ?thesis
      unfolding calculateSimilarity_unfold by (simp only: if_True if_False simp_thms)
  next
    case False
    have d: "0 < levenshteinDistance ?q ?t"
      using levenshteinDistance_zero [of ?q ?t] ne by blast
    have m: "0 < max (length ?q) (length ?t)"
      using ne by (cases ?q; cases ?t) auto
    from lev_branch_value [OF d m] False ne show ?thesis
      unfolding calculateSimilarity_unfold by (simp only: if_True if_False simp_thms)
  qed
qed

text \<open>
  Claim C2. For every query, candidate and \<open>caseSensitive\<close> flag the score lies in
  \<open>[0, 1]\<close>, and it is 1 exactly when the query and the candidate, folded unless the
  search is case sensitive, are equal. Scores are exact rationals here.
\<close>

theorem calculateSimilarity_unit_interval:
  "0 \<le> calculateSimilarity lc query target cs \<and> calculateSimilarity lc query target cs \<le> 1 \<and>
   (calculateSimilarity lc query target cs = 1 \<longleftrightarrow> folded lc cs query = folded lc cs target)"
proof (cases "folded lc cs query = folded lc cs target")
  case True
  with calculateSimilarity_equal [OF True] show ?thesis by simp
next
  case False
  with calculateSimilarity_unequal [OF False] show ?thesis by auto
qed

text \<open>
  Claim C3. When the folded candidate contains the folded query, or starts with it, and
  the two differ, the score is \<open>0.8 + 0.2 * len(q) / len(c)\<close> and lies in
  \<open>[0.8, 1)\<close>; the query need not even be non-empty. So every proper prefix match is
  scored by the containment formula, and the third rule never decides a score: where the
  containment test has failed, the candidate does not start with the query.
\<close>

theorem calculateSimilarity_containment:
  "((includesStr (folded lc cs target) (folded lc cs query) \<or>
     startsWith (folded lc cs target) (folded lc cs query)) \<and>
    folded lc cs target \<noteq> folded lc cs query \<longrightarrow>
      calculateSimilarity lc query target cs =
        0.8 + 0.2 * (of_nat (length (folded lc cs query)) / of_nat (length (folded lc cs target))) \<and>
      0.8 \<le> calculateSimilarity lc query target cs \<and> calculateSimilarity lc query target cs < 1) \<and>
   \<not> (folded lc cs query \<noteq> folded lc cs target \<and>
      \<not> includesStr (folded lc cs target) (folded lc cs query) \<and>
      startsWith (folded lc cs target) (folded lc cs query))"
proof -
  let ?q = "folded lc cs query" and ?t = "folded lc cs target"
  have "calculateSimilarity lc query target cs = 0.8 + 0.2 * (of_nat (length ?q) / of_nat (length ?t)) \<and>
      0.8 \<le> calculateSimilarity lc query target cs \<and> calculateSimilarity lc query target cs < 1"
    if h: "includesStr ?t ?q \<or> startsWith ?t ?q" and ne: "?t \<noteq> ?q"
  proof -
    from h have inc: "includesStr ?t ?q" using startsWith_includesStr by blast
    from ne have ne': "?q \<noteq> ?t" by simp
    have "length ?q < length ?t" using inc ne' by (rule includesStr_length)
    from containment_value [OF this] inc ne' show ?thesis
      unfolding calculateSimilarity_unfold by (simp only: if_True if_False) (simp add: mult.commute)
  qed
  moreover have "\<not> (?q \<noteq> ?t \<and> \<not> includesStr ?t ?q \<and> startsWith ?t ?q)"
    using startsWith_includesStr by blast
  ultimately show ?thesis by blast
qed

text \<open>Claim C2 on the query DhaKA against dHaka, and on Dha against Dhaka.\<close>

theorem calculateSimilarity_unit_interval_witness:
  "calculateSimilarity asciiLower [68,104,97,75,65] [100,72,97,107,97] False = 1 \<and>
   calculateSimilarity asciiLower [68,104,97] [68,104,97,107,97] False < 1"
proof -
  have "folded asciiLower False [68,104,97,75,65] = folded asciiLower False [100,72,97,107,97]"
    by (simp add: asciiLower_def)
  moreover have "folded asciiLower False [68,104,97] \<noteq> folded asciiLower False [68,104,97,107,97]"
    by (simp add: asciiLower_def)
  ultimately show ?thesis
    using calculateSimilarity_unit_interval [where lc = asciiLower and query = "[68,104,97,75,65]"
        and target = "[100,72,97,107,97]" and cs = False]
      calculateSimilarity_unit_interval [where lc = asciiLower and query = "[68,104,97]"
        and target = "[68,104,97,107,97]" and cs = False]
    by (simp only: if_False) simp
qed

text \<open>Claim C3 on the query Dha against Dhaka: the score is 0.92.\<close>

theorem calculateSimilarity_containment_witness:
  "startsWith (asciiLower [68,104,97,107,97]) (asciiLower [68,104,97]) \<and>
   asciiLower [68,104,97,107,97] \<noteq> asciiLower [68,104,97] \<and>
   calculateSimilarity asciiLower [68,104,97] [68,104,97,107,97] False = 23 / 25"
proof -
  have h: "startsWith (asciiLower [68,104,97,107,97]) (asciiLower [68,104,97])"
    "asciiLower [68,104,97,107,97] \<noteq> asciiLower [68,104,97]"
    by (simp_all add: startsWith_def asciiLower_def)
  have l: "length (asciiLower [68,104,97]) = 3" "length (asciiLower [68,104,97,107,97]) = 5"
    by (simp_all add: asciiLower_def)
  from h show ?thesis
    using calculateSimilarity_containment [where lc = asciiLower and cs = False
        and target = "[68,104,97,107,97]" and query = "[68,104,97]"]
    by (simp only: if_False l) simp
qed

section \<open>Ranked search\<close>

subsection \<open>Slicing\<close>

lemma slice0_take: "\<exists>k. slice0 xs e = take k xs"
  by (auto simp: slice0_def Let_def)

lemma slice0_nonneg: "0 \<le> e \<Longrightarrow> slice0 xs e = take (nat e) xs"
  by (auto simp: slice0_def Let_def min_def)

lemma length_slice0: "0 \<le> e \<Longrightarrow> int (length (slice0 xs e)) \<le> e"
  by (simp add: slice0_nonneg)

lemma set_slice0: "set (slice0 xs e) \<subseteq> set xs"
  using slice0_take [of xs e] by (auto dest: in_set_takeD)

subsection \<open>The scan of a category\<close>

lemma searchInItem_item:
  "searchInItem lc x query opts = Inr (Some r) \<Longrightarrow> item r = x"
  by (auto simp: searchInItem_def Let_def split: sum.splits if_splits)

lemma searchItems_Inr:
  "searchItems lc xs query opts out = Inr res \<Longrightarrow>
     res = out @ matchesOf lc query opts xs \<and> (\<forall>x\<in>set xs. \<exists>r. searchInItem lc x query opts = Inr r)"
proof (induction xs arbitrary: out)
  case Nil
  then show ?case by (simp add: matchesOf_def List.map_filter_simps)
next
  case (Cons x xs)
  show ?case
  proof (cases "searchInItem lc x query opts")
    case (Inl e)
    with Cons.prems show ?thesis by simp
  next
    case (Inr r)
    show ?thesis
    proof (cases r)
      case None
      with Inr Cons.prems have "searchItems lc xs query opts out = Inr res" by simp
      from Cons.IH [OF this] Inr None show ?thesis
        by (simp add: matchesOf_def matchOf_def List.map_filter_simps)
    next
      case (Some a)
      with Inr Cons.prems have "searchItems lc xs query opts (out @ [a]) = Inr res" by simp
      from Cons.IH [OF this] Inr Some show ?thesis
        by (simp add: matchesOf_def matchOf_def List.map_filter_simps)
    qed
  qed
qed

lemma searchCategory_Inr:
  assumes "searchCategory lc data query opts = Inr res"
  shows "res = slice0 (sortByScore (matchesOf lc query opts data)) (limit opts)"
    and "\<forall>x\<in>set data. \<exists>r. searchInItem lc x query opts = Inr r"
  using assms searchItems_Inr [of lc data query opts "[]"]
  by (auto simp: searchCategory_def split: sum.splits)

lemma search_Inr:
  assumes "search lc cat query options = Inr res" and "trim query \<noteq> []"
  shows "divisions res = categoryResult lc query (mergeOptions options) Division (divisionsData cat)"
    and "districts res = categoryResult lc query (mergeOptions options) District (districtsData cat)"
    and "upazilas res = categoryResult lc query (mergeOptions options) Upazila (upazilasData cat)"
proof -
  let ?o = "mergeOptions options"
  from assms(2) have q: "query \<noteq> []" by (auto simp: trim_def)
  obtain ds dis ups where
    d: "(if Division \<in> set (types ?o) then searchCategory lc (divisionsData cat) (trim query) ?o else Inr []) = Inr ds"
    and di: "(if District \<in> set (types ?o) then searchCategory lc (districtsData cat) (trim query) ?o else Inr []) = Inr dis"
    and u: "(if Upazila \<in> set (types ?o) then searchCategory lc (upazilasData cat) (trim query) ?o else Inr []) = Inr ups"
    and r: "res = \<lparr>divisions = ds, districts = dis, upazilas = ups\<rparr>"
    using assms q unfolding search_def Let_def
    by (auto split: sum.splits cong: if_cong)
  from d show "divisions res = categoryResult lc query ?o Division (divisionsData cat)"
    unfolding r categoryResult_def by (auto split: if_splits dest: searchCategory_Inr(1))
  from di show "districts res = categoryResult lc query ?o District (districtsData cat)"
    unfolding r categoryResult_def by (auto split: if_splits dest: searchCategory_Inr(1))
  from u show "upazilas res = categoryResult lc query ?o Upazila (upazilasData cat)"
    unfolding r categoryResult_def by (auto split: if_splits dest: searchCategory_Inr(1))
qed

lemma search_blank:
  assumes "search lc cat query options = Inr res" and "trim query = []"
  shows "res = \<lparr>divisions = [], districts = [], upazilas = []\<rparr>"
  using assms unfolding search_def Let_def by simp

subsection \<open>The blank-query test\<close>

lemma trim_Nil: "trim [] = []"
  by (simp add: trim_def)

lemma search_unfold:
  "search lc cat query options =
     (if trim query = [] then Inr \<lparr>divisions = [], districts = [], upazilas = []\<rparr>
      else searchTrimmed lc cat (trim query) (mergeOptions options))"
proof -
  have "(query = [] \<or> length (trim query) = 0) = (trim query = [])"
    using trim_Nil by auto
  moreover have "divisions \<lparr>divisions = [], districts = [], upazilas = []\<rparr> = []"
    "districts \<lparr>divisions = [], districts = [], upazilas = []\<rparr> = []"
    "upazilas \<lparr>divisions = [], districts = [], upazilas = []\<rparr> = []"
    by simp_all
  ultimately show ?thesis
    unfolding search_def searchTrimmed_def Let_def
    by (simp only: if_True if_False split: if_splits)
qed

subsection \<open>The blank-query test of autocomplete\<close>

lemma autocomplete_unfold:
  "autocomplete lc cat query options =
     (if trim query = [] then [] else autocompleteTrimmed lc cat (trim query) (mergeOptions options))"
proof -
  have "(query = [] \<or> length (trim query) = 0) = (trim query = [])"
    using trim_Nil by auto
  then show ?thesis
    unfolding autocomplete_def autocompleteTrimmed_def autocompleteResults_def Let_def
    by simp
qed

subsection \<open>Trimming the example queries\<close>

lemma trim_examples:
  "trim (str ''Dha'') = str ''Dha''" "str ''Dha'' \<noteq> []"
  "trim (str ''Dhaka'') = str ''Dhaka''" "str ''Dhaka'' \<noteq> []"
  "trim (str ''z'') = str ''z''" "str ''z'' \<noteq> []"
  "trim (str ''Shilot'') = str ''Shilot''" "str ''Shilot'' \<noteq> []"
  "trim (str ''ava'') = str ''ava''" "str ''ava'' \<noteq> []"
  "trim (str ''dha'') = str ''dha''" "str ''dha'' \<noteq> []"
  "trim (str ''dhaka'') = str ''dhaka''" "str ''dhaka'' \<noteq> []"
  "trim [2466, 2494] = [2466, 2494]"
  by (simp_all add: trim_def str_def isWhiteSpace_def)

subsection \<open>Order and size of a category of the result\<close>

lemma subseq_matchesOf: "subseq (map item (matchesOf lc query opts data)) data"
proof (induction data)
  case Nil
  show ?case by (simp add: matchesOf_def List.map_filter_simps)
next
  case (Cons x xs)
  show ?case
  proof (cases "matchOf lc query opts x")
    case None
    with Cons show ?thesis
      by (auto simp: matchesOf_def List.map_filter_simps intro: list_emb_Cons)
  next
    case (Some r)
    then have "item r = x"
      by (auto simp: matchOf_def split: sum.splits option.splits dest: searchInItem_item)
    with Some Cons show ?thesis
      by (simp add: matchesOf_def List.map_filter_simps)
  qed
qed

lemma sortByScore_sorted: "sorted_wrt (\<lambda>a b. score b \<le> score a) (sortByScore xs)"
proof -
  have "sorted (map (\<lambda>r. - score r) (sortByScore xs))"
    unfolding sortByScore_def by (rule sorted_sort_key)
  then show ?thesis by (simp add: sorted_map)
qed

lemma sortByScore_stable:
  "filter (\<lambda>r. score r = k) (sortByScore xs) = filter (\<lambda>r. score r = k) xs"
  using sort_key_stable [of "\<lambda>r. - score r" "- k" xs] by (simp add: sortByScore_def)

lemma set_sortByScore: "set (sortByScore xs) = set xs"
  by (simp add: sortByScore_def)

lemma rankedOver_Nil: "rankedOver [] data"
  by (simp add: rankedOver_def)

lemma rankedOver_categoryResult: "rankedOver (categoryResult lc query opts ty data) data"
proof (cases "ty \<in> set (types opts)")
  case False
  then show ?thesis by (simp add: categoryResult_def rankedOver_Nil)
next
  case True
  let ?ms = "matchesOf lc (trim query) opts data"
  obtain n where n: "categoryResult lc query opts ty data = take n (sortByScore ?ms)"
    using True slice0_take [of "sortByScore ?ms" "limit opts"] by (auto simp: categoryResult_def)
  have "sorted_wrt (\<lambda>a b. score b \<le> score a) (take n (sortByScore ?ms))"
    using sortByScore_sorted by (rule sorted_wrt_take)
  moreover have "subseq (map item (filter (\<lambda>r. score r = k) (take n (sortByScore ?ms)))) data" for k
  proof -
    have "subseq (take n (sortByScore ?ms)) (sortByScore ?ms)"
      using take_is_prefix by (rule prefix_imp_subseq)
    then have "subseq (filter (\<lambda>r. score r = k) (take n (sortByScore ?ms)))
                 (filter (\<lambda>r. score r = k) (sortByScore ?ms))"
      by simp
    also have "filter (\<lambda>r. score r = k) (sortByScore ?ms) = filter (\<lambda>r. score r = k) ?ms"
      by (rule sortByScore_stable)
    finally have "subseq (filter (\<lambda>r. score r = k) (take n (sortByScore ?ms))) ?ms"
      using subseq_filter_left subseq_order.trans by blast
    then have "subseq (map item (filter (\<lambda>r. score r = k) (take n (sortByScore ?ms)))) (map item ?ms)"
      by (rule subseq_map)
    with subseq_matchesOf show ?thesis
      using subseq_order.trans by blast
  qed
  ultimately show ?thesis
    unfolding n rankedOver_def by blast
qed

text \<open>
  Claim C4. Whenever \<open>search\<close> returns, each of the three sequences of the result is
  sorted by non-increasing score, and the entities of equal score come in the order in
  which the catalog lists them.
\<close>

theorem search_ranked:
  assumes "search lc cat query options = Inr res"
  shows "rankedOver (divisions res) (divisionsData cat) \<and>
         rankedOver (districts res) (districtsData cat) \<and>
         rankedOver (upazilas res) (upazilasData cat)"
proof (cases "trim query = []")
  case True
  from search_blank [OF assms True] show ?thesis by (simp add: rankedOver_Nil)
next
  case False
  from search_Inr [OF assms False] show ?thesis
    by (simp add: rankedOver_categoryResult)
qed

lemma length_categoryResult:
  "0 \<le> limit opts \<Longrightarrow> int (length (categoryResult lc query opts ty data)) \<le> limit opts"
  by (simp add: categoryResult_def length_slice0)

text \<open>
  Claim C5, amended. Whenever \<open>search\<close> returns and the limit is not negative, no
  category of the result holds more than \<open>limit\<close> entries; the bound is on each
  category, not on their sum.
\<close>

theorem search_limit:
  assumes "search lc cat query options = Inr res" and "0 \<le> limit (mergeOptions options)"
  shows "int (length (divisions res)) \<le> limit (mergeOptions options) \<and>
         int (length (districts res)) \<le> limit (mergeOptions options) \<and>
         int (length (upazilas res)) \<le> limit (mergeOptions options)"
proof (cases "trim query = []")
  case True
  from search_blank [OF assms(1) True] assms(2) show ?thesis by simp
next
  case False
  from search_Inr [OF assms(1) False] length_categoryResult [OF assms(2)] show ?thesis
    by simp
qed

text \<open>
  Claim C10. The result of \<open>search\<close> is a record of three sequences, so all three are
  always present; a category that \<open>options.types\<close> does not list is the empty sequence.
\<close>

theorem search_types:
  assumes "search lc cat query options = Inr res"
  shows "(Division \<notin> set (types (mergeOptions options)) \<longrightarrow> divisions res = []) \<and>
         (District \<notin> set (types (mergeOptions options)) \<longrightarrow> districts res = []) \<and>
         (Upazila \<notin> set (types (mergeOptions options)) \<longrightarrow> upazilas res = [])"
proof (cases "trim query = []")
  case True
  from search_blank [OF assms True] show ?thesis by simp
next
  case False
  from search_Inr [OF assms False] show ?thesis
    by (simp add: categoryResult_def)
qed

subsection \<open>The first match across categories\<close>

lemma matchOf_Some:
  "matchOf lc query opts x = Some r \<longleftrightarrow> searchInItem lc x query opts = Inr (Some r)"
  by (auto simp: matchOf_def split: sum.splits option.splits)

lemma matchesOf_iff:
  "r \<in> set (matchesOf lc query opts data) \<longleftrightarrow>
     (\<exists>x\<in>set data. searchInItem lc x query opts = Inr (Some r))"
proof -
  have "r \<in> set (List.map_filter f data) \<longleftrightarrow> (\<exists>x\<in>set data. f x = Some r)"
    for f :: "location \<Rightarrow> searchResult option"
    by (induction data) (auto simp: List.map_filter_simps split: option.splits)
  then show ?thesis
    by (simp add: matchesOf_def matchOf_Some)
qed

lemma sortByScore_head:
  assumes "sortByScore xs = y # ys"
  shows "y \<in> set xs" and "\<forall>x\<in>set xs. score x \<le> score y"
proof -
  have s: "set xs = set (y # ys)"
    using set_sortByScore [of xs] assms by simp
  then show "y \<in> set xs" by simp
  have "sorted_wrt (\<lambda>a b. score b \<le> score a) (y # ys)"
    using sortByScore_sorted [of xs] assms by simp
  then have "\<forall>x\<in>set ys. score x \<le> score y" by simp
  with s show "\<forall>x\<in>set xs. score x \<le> score y" by auto
qed

lemma sortByScore_Nil_iff: "sortByScore xs = [] \<longleftrightarrow> xs = []"
  using set_sortByScore [of xs] by (metis set_empty)

lemma top_covers:
  assumes "r \<in> set xs"
  shows "\<exists>y\<in>set (slice0 (sortByScore xs) 1). score r \<le> score y"
proof (cases "sortByScore xs")
  case Nil
  with assms show ?thesis by (simp add: sortByScore_Nil_iff)
next
  case (Cons y ys)
  from sortByScore_head(2) [OF Cons] assms have "score r \<le> score y" by blast
  moreover have "slice0 (sortByScore xs) 1 = [y]"
    using Cons by (simp add: slice0_nonneg)
  ultimately show ?thesis by simp
qed

lemma searchTrimmed_no_throw:
  assumes "searchTrimmed lc cat q opts = Inr res"
  shows "\<forall>x\<in>set (searchedItems cat opts). \<exists>r. searchInItem lc x q opts = Inr r"
proof -
  have d: "\<forall>x\<in>set (divisionsData cat). \<exists>r. searchInItem lc x q opts = Inr r"
    if "Division \<in> set (types opts)"
    using assms that unfolding searchTrimmed_def
    by (auto split: sum.splits if_splits dest: searchCategory_Inr(2))
  have di: "\<forall>x\<in>set (districtsData cat). \<exists>r. searchInItem lc x q opts = Inr r"
    if "District \<in> set (types opts)"
    using assms that unfolding searchTrimmed_def
    by (auto split: sum.splits if_splits dest: searchCategory_Inr(2))
  have u: "\<forall>x\<in>set (upazilasData cat). \<exists>r. searchInItem lc x q opts = Inr r"
    if "Upazila \<in> set (types opts)"
    using assms that unfolding searchTrimmed_def
    by (auto split: sum.splits if_splits dest: searchCategory_Inr(2))
  from d di u show ?thesis
    by (auto simp: searchedItems_def)
qed

text \<open>The flattened result of a search with limit 1 on a query that is not blank.\<close>

lemma flattened_sound:
  assumes "limit opts = 1"
    and "r \<in> set (categoryResult lc query opts Division (divisionsData cat) @
                   categoryResult lc query opts District (districtsData cat) @
                   categoryResult lc query opts Upazila (upazilasData cat))"
  shows "item r \<in> set (searchedItems cat opts) \<and>
         searchInItem lc (item r) (trim query) opts = Inr (Some r)"
proof -
  have c: "item r \<in> set data \<and> searchInItem lc (item r) (trim query) opts = Inr (Some r)"
    if "r \<in> set (categoryResult lc query opts ty data)" for ty data
  proof -
    from that have "r \<in> set (matchesOf lc (trim query) opts data)"
      using set_slice0 [of "sortByScore (matchesOf lc (trim query) opts data)" "limit opts"]
      by (auto simp: categoryResult_def set_sortByScore split: if_splits)
    then obtain x where "x \<in> set data" "searchInItem lc x (trim query) opts = Inr (Some r)"
      by (auto simp: matchesOf_iff)
    moreover from this have "item r = x" by (auto dest: searchInItem_item)
    ultimately show ?thesis by simp
  qed
  have t: "ty \<in> set (types opts)" if "r \<in> set (categoryResult lc query opts ty data)" for ty data
    using that by (auto simp: categoryResult_def split: if_splits)
  from assms(2) consider
    "r \<in> set (categoryResult lc query opts Division (divisionsData cat))" |
    "r \<in> set (categoryResult lc query opts District (districtsData cat))" |
    "r \<in> set (categoryResult lc query opts Upazila (upazilasData cat))"
    by auto
  then show ?thesis
  proof cases
    case 1
    with c [OF 1] t [OF 1] show ?thesis by (simp add: searchedItems_def)
  next
    case 2
    with c [OF 2] t [OF 2] show ?thesis by (simp add: searchedItems_def)
  next
    case 3
    with c [OF 3] t [OF 3] show ?thesis by (simp add: searchedItems_def)
  qed
qed

lemma flattened_covers:
  assumes "limit opts = 1"
    and "x \<in> set (searchedItems cat opts)"
    and "searchInItem lc x (trim query) opts = Inr (Some r)"
  shows "\<exists>y\<in>set (categoryResult lc query opts Division (divisionsData cat) @
                  categoryResult lc query opts District (districtsData cat) @
                  categoryResult lc query opts Upazila (upazilasData cat)). score r \<le> score y"
proof -
  have c: "\<exists>y\<in>set (categoryResult lc query opts ty data). score r \<le> score y"
    if "ty \<in> set (types opts)" "x \<in> set data" for ty data
  proof -
    from that(2) assms(3) have "r \<in> set (matchesOf lc (trim query) opts data)"
      by (auto simp: matchesOf_iff)
    from top_covers [OF this] that(1) assms(1) show ?thesis
      by (simp add: categoryResult_def)
  qed
  from assms(2) consider
    "Division \<in> set (types opts)" "x \<in> set (divisionsData cat)" |
    "District \<in> set (types opts)" "x \<in> set (districtsData cat)" |
    "Upazila \<in> set (types opts)" "x \<in> set (upazilasData cat)"
    by (auto simp: searchedItems_def split: if_splits)
  then show ?thesis
  proof cases
    case 1
    from c [OF 1] show ?thesis by auto
  next
    case 2
    from c [OF 2] show ?thesis by auto
  next
    case 3
    from c [OF 3] show ?thesis by auto
  qed
qed

lemma quickSearch_unfold:
  "quickSearch lc cat query options =
     (case search lc cat query (options\<lparr>limit' := Some 1\<rparr>) of
        Inl e \<Rightarrow> Inl e
      | Inr result \<Rightarrow>
          (case sortByScore (divisions result @ districts result @ upazilas result) of
             [] \<Rightarrow> Inr None
           | first # _ \<Rightarrow> Inr (Some (item first))))"
proof -
  have "sortByScore [] = []" by (simp add: sortByScore_def)
  then show ?thesis
    unfolding quickSearch_def Let_def
    by (auto split: sum.splits list.splits)
qed

lemma limit_quick: "limit (mergeOptions (options\<lparr>limit' := Some 1\<rparr>)) = 1"
  by (simp add: mergeOptions_def)

subsection \<open>The best field of an entity\<close>

lemma searchInItem_scores:
  "(if includeEnglish opts
    then [(calculateSimilarity lc query (name x) (caseSensitive opts), Name)] else []) @
   (if includeBengali opts
    then [(calculateSimilarity lc query (bnName x) (caseSensitive opts), BnName)] else []) @
   (if includeSlug opts
    then [(calculateSimilarity lc query (slug x) (caseSensitive opts), Slug)] else []) =
   map (\<lambda>f. (fieldScore lc query opts x f, f)) (enabledFields opts)"
  by (simp add: enabledFields_def fieldScore_def fieldValue_def)

lemma foldl_best:
  "fst (foldl (\<lambda>best current :: rat \<times> field. if fst current > fst best then current else best) b ss) =
     Max (set (map fst (b # ss))) \<and>
   foldl (\<lambda>best current. if fst current > fst best then current else best) b ss \<in> set (b # ss)"
proof -
  define step where
    "step = (\<lambda>best current :: rat \<times> field. if fst current > fst best then current else best)"
  have "fst (foldl step a cs) = Max (set (map fst (a # cs))) \<and> foldl step a cs \<in> set (a # cs)"
    for a cs
  proof (induction cs arbitrary: a)
    case Nil
    show ?case by simp
  next
    case (Cons c cs)
    have m: "fst (step a c) = max (fst a) (fst c)"
      by (auto simp: step_def max_def)
    have i: "step a c = a \<or> step a c = c"
      by (auto simp: step_def)
    have "Max (set (map fst (step a c # cs))) = Max (set (map fst (a # c # cs)))"
    proof (cases "cs = []")
      case True
      with m show ?thesis by simp
    next
      case False
      then have "fst ` set cs \<noteq> {}" by simp
      with m show ?thesis by (simp add: max.assoc)
    qed
    with Cons.IH [of "step a c"] i show ?case by auto
  qed
  then show ?thesis unfolding step_def .
qed

lemma reduceBest_max:
  assumes "reduceBest scores = Inr b"
  shows "scores \<noteq> []" and "b \<in> set scores" and "fst b = Max (set (map fst scores))"
proof -
  from assms obtain s ss where s: "scores = s # ss"
    by (cases scores) auto
  then show "scores \<noteq> []" by simp
  from assms s foldl_best [of s ss] show "b \<in> set scores" and "fst b = Max (set (map fst scores))"
    by auto
qed

lemma searchInItem_best:
  assumes "searchInItem lc x query opts = Inr (Some sr)"
  shows "score sr = bestFieldScore lc query opts x"
    and "threshold opts \<le> score sr"
    and "matchedField sr \<in> set (enabledFields opts)"
    and "fieldScore lc query opts x (matchedField sr) = score sr"
proof -
  let ?scores = "map (\<lambda>f. (fieldScore lc query opts x f, f)) (enabledFields opts)"
  from assms obtain b where b: "reduceBest ?scores = Inr b"
    and t: "threshold opts \<le> fst b"
    and sr: "sr = \<lparr>item = x, score = fst b, matchedField = snd b\<rparr>"
    unfolding searchInItem_def Let_def searchInItem_scores
    by (auto split: sum.splits if_splits)
  from reduceBest_max(3) [OF b] sr show "score sr = bestFieldScore lc query opts x"
    by (simp add: bestFieldScore_def o_def)
  from t sr show "threshold opts \<le> score sr" by simp
  from reduceBest_max(2) [OF b] sr
  show "matchedField sr \<in> set (enabledFields opts)"
    and "fieldScore lc query opts x (matchedField sr) = score sr"
    by auto
qed

lemma searchInItem_below:
  assumes "searchInItem lc x query opts = Inr None"
  shows "bestFieldScore lc query opts x < threshold opts"
proof -
  let ?scores = "map (\<lambda>f. (fieldScore lc query opts x f, f)) (enabledFields opts)"
  from assms obtain b where b: "reduceBest ?scores = Inr b"
    and t: "\<not> threshold opts \<le> fst b"
    unfolding searchInItem_def Let_def searchInItem_scores
    by (auto split: sum.splits if_splits)
  from reduceBest_max(3) [OF b] t show ?thesis
    by (simp add: bestFieldScore_def o_def)
qed

text \<open>
  Claim C7. \<open>quickSearch\<close> runs \<open>search\<close> with the limit set to 1, flattens the three
  categories and sorts again by descending score. Whenever it returns, it returns none
  exactly when the query is blank or no searched entity matches, that is, the best-field
  score of every searched entity is below the threshold. Otherwise it returns an entity
  of a searched category that matches, and the best-field score of that entity, the
  maximum of its scores over the enabled fields, is the greatest best-field score of all
  entities of the searched categories.
\<close>

theorem quickSearch_best:
  assumes "quickSearch lc cat query options = Inr r"
  shows "let opts = mergeOptions (options\<lparr>limit' := Some 1\<rparr>);
             q = trim query;
             its = searchedItems cat opts
         in limit opts = 1 \<and>
            (\<exists>res. search lc cat query (options\<lparr>limit' := Some 1\<rparr>) = Inr res \<and>
               r = (case sortByScore (divisions res @ districts res @ upazilas res) of
                      [] \<Rightarrow> None | first # _ \<Rightarrow> Some (item first))) \<and>
            (r = None \<longleftrightarrow> q = [] \<or> (\<forall>x\<in>set its. searchInItem lc x q opts = Inr None)) \<and>
            (r = None \<and> q \<noteq> [] \<longrightarrow>
               (\<forall>x\<in>set its. bestFieldScore lc q opts x < threshold opts)) \<and>
            (\<forall>e. r = Some e \<longrightarrow>
               e \<in> set its \<and>
               threshold opts \<le> bestFieldScore lc q opts e \<and>
               (\<forall>x\<in>set its. bestFieldScore lc q opts x \<le> bestFieldScore lc q opts e) \<and>
               (\<exists>sr. searchInItem lc e q opts = Inr (Some sr) \<and>
                  score sr = bestFieldScore lc q opts e \<and>
                  matchedField sr \<in> set (enabledFields opts) \<and>
                  fieldScore lc q opts e (matchedField sr) = score sr \<and>
                  (\<forall>x\<in>set its. \<forall>sr'. searchInItem lc x q opts = Inr (Some sr') \<longrightarrow>
                     score sr' \<le> score sr)))"
proof -
  define opts where "opts = mergeOptions (options\<lparr>limit' := Some 1\<rparr>)"
  define its where "its = searchedItems cat opts"
  have l: "limit opts = 1" by (simp add: opts_def limit_quick)
  from assms obtain res where
    res: "search lc cat query (options\<lparr>limit' := Some 1\<rparr>) = Inr res"
    and r: "r = (case sortByScore (divisions res @ districts res @ upazilas res) of
                   [] \<Rightarrow> None | first # _ \<Rightarrow> Some (item first))"
    unfolding quickSearch_unfold by (auto split: sum.splits list.splits)
  let ?all = "divisions res @ districts res @ upazilas res"
  have main: "(r = None \<longleftrightarrow> trim query = [] \<or> (\<forall>x\<in>set its. searchInItem lc x (trim query) opts = Inr None)) \<and>
            (\<forall>e. r = Some e \<longrightarrow>
               e \<in> set its \<and>
               (\<exists>sr. searchInItem lc e (trim query) opts = Inr (Some sr) \<and>
                  (\<forall>x\<in>set its. \<forall>sr'. searchInItem lc x (trim query) opts = Inr (Some sr') \<longrightarrow>
                     score sr' \<le> score sr)))"
  proof (cases "trim query = []")
    case True
    from search_blank [OF res True] r have "r = None"
      by (simp add: sortByScore_def)
    with True show ?thesis by simp
  next
    case False
    note cr = search_Inr [OF res False, folded opts_def]
    have all: "?all = categoryResult lc query opts Division (divisionsData cat) @
                   categoryResult lc query opts District (districtsData cat) @
                   categoryResult lc query opts Upazila (upazilasData cat)"
      by (simp add: cr)
    from res False have "searchTrimmed lc cat (trim query) opts = Inr res"
      by (simp add: search_unfold opts_def)
    from searchTrimmed_no_throw [OF this]
    have nt: "\<forall>x\<in>set its. \<exists>m. searchInItem lc x (trim query) opts = Inr m"
      by (simp add: its_def)
    show ?thesis
    proof (cases "sortByScore ?all")
      case Nil
      then have rn: "r = None" using r by simp
      from Nil have empty: "?all = []" by (simp add: sortByScore_Nil_iff)
      have "searchInItem lc x (trim query) opts = Inr None" if x: "x \<in> set its" for x
      proof -
        from nt x obtain m where m: "searchInItem lc x (trim query) opts = Inr m" by blast
        show ?thesis
        proof (cases m)
          case None
          with m show ?thesis by simp
        next
          case (Some sr)
          from flattened_covers [OF l x [unfolded its_def] m [unfolded Some]] all empty
          show ?thesis by simp
        qed
      qed
      with rn False show ?thesis by simp
    next
      case (Cons first rest)
      then have rs: "r = Some (item first)" using r by simp
      from sortByScore_head [OF Cons] have fin: "first \<in> set ?all"
        and fmax: "\<forall>y\<in>set ?all. score y \<le> score first" by simp_all
      from flattened_sound [OF l fin [unfolded all]]
      have f1: "item first \<in> set its"
        and f2: "searchInItem lc (item first) (trim query) opts = Inr (Some first)"
        by (simp_all add: its_def)
      have f3: "score sr' \<le> score first"
        if "x \<in> set its" "searchInItem lc x (trim query) opts = Inr (Some sr')" for x sr'
      proof -
        from flattened_covers [OF l that(1) [unfolded its_def] that(2)]
        obtain y where y: "y \<in> set ?all" "score sr' \<le> score y"
          unfolding all by blast
        from fmax y(1) have "score y \<le> score first" by (rule bspec)
        with y(2) show ?thesis by (rule order_trans)
      qed
      have "\<not> (\<forall>x\<in>set its. searchInItem lc x (trim query) opts = Inr None)"
        using f1 f2 by force
      with rs False f1 f2 f3 show ?thesis by blast
    qed
  qed
  have nt': "\<forall>x\<in>set its. \<exists>m. searchInItem lc x (trim query) opts = Inr m" if "trim query \<noteq> []"
  proof -
    from res that have "searchTrimmed lc cat (trim query) opts = Inr res"
      by (simp add: search_unfold opts_def)
    from searchTrimmed_no_throw [OF this] show ?thesis
      by (simp add: its_def)
  qed
  have below: "\<forall>x\<in>set its. bestFieldScore lc (trim query) opts x < threshold opts"
    if "r = None" "trim query \<noteq> []"
    using main that by (auto dest: searchInItem_below)
  have best: "threshold opts \<le> bestFieldScore lc (trim query) opts e \<and>
      (\<forall>x\<in>set its. bestFieldScore lc (trim query) opts x \<le> bestFieldScore lc (trim query) opts e) \<and>
      (\<exists>sr. searchInItem lc e (trim query) opts = Inr (Some sr) \<and>
         score sr = bestFieldScore lc (trim query) opts e \<and>
         matchedField sr \<in> set (enabledFields opts) \<and>
         fieldScore lc (trim query) opts e (matchedField sr) = score sr \<and>
         (\<forall>x\<in>set its. \<forall>sr'. searchInItem lc x (trim query) opts = Inr (Some sr') \<longrightarrow>
            score sr' \<le> score sr))"
    if e: "r = Some e" for e
  proof -
    from main e obtain sr where sr: "searchInItem lc e (trim query) opts = Inr (Some sr)"
      and mx: "\<forall>x\<in>set its. \<forall>sr'. searchInItem lc x (trim query) opts = Inr (Some sr') \<longrightarrow>
                 score sr' \<le> score sr"
      by blast
    from main e have ne: "trim query \<noteq> []" by auto
    note b = searchInItem_best [OF sr]
    have "bestFieldScore lc (trim query) opts x \<le> bestFieldScore lc (trim query) opts e"
      if x: "x \<in> set its" for x
    proof -
      from nt' [OF ne] x obtain m where m: "searchInItem lc x (trim query) opts = Inr m" by blast
      show ?thesis
      proof (cases m)
        case None
        from searchInItem_below [OF m [unfolded None]] b(1,2) show ?thesis by simp
      next
        case (Some sr')
        from mx x m [unfolded Some] have "score sr' \<le> score sr" by blast
        with searchInItem_best(1) [OF m [unfolded Some]] b(1) show ?thesis by simp
      qed
    qed
    with sr mx b show ?thesis by auto
  qed
  have ex: "\<exists>res. search lc cat query (options\<lparr>limit' := Some 1\<rparr>) = Inr res \<and>
      r = (case sortByScore (divisions res @ districts res @ upazilas res) of
             [] \<Rightarrow> None | first # _ \<Rightarrow> Some (item first))"
    using res r by blast
  have none: "r = None \<longleftrightarrow> trim query = [] \<or>
      (\<forall>x\<in>set its. searchInItem lc x (trim query) opts = Inr None)"
    using main by (rule conjunct1)
  have none': "r = None \<and> trim query \<noteq> [] \<longrightarrow>
      (\<forall>x\<in>set its. bestFieldScore lc (trim query) opts x < threshold opts)"
    using below by blast
  have some: "\<forall>e. r = Some e \<longrightarrow>
      e \<in> set its \<and>
      threshold opts \<le> bestFieldScore lc (trim query) opts e \<and>
      (\<forall>x\<in>set its. bestFieldScore lc (trim query) opts x \<le> bestFieldScore lc (trim query) opts e) \<and>
      (\<exists>sr. searchInItem lc e (trim query) opts = Inr (Some sr) \<and>
         score sr = bestFieldScore lc (trim query) opts e \<and>
         matchedField sr \<in> set (enabledFields opts) \<and>
         fieldScore lc (trim query) opts e (matchedField sr) = score sr \<and>
         (\<forall>x\<in>set its. \<forall>sr'. searchInItem lc x (trim query) opts = Inr (Some sr') \<longrightarrow>
            score sr' \<le> score sr))"
  proof (intro allI impI)
    fix e assume e: "r = Some e"
    from main e have "e \<in> set its" by blast
    from this best [OF e] show "e \<in> set its \<and>
      threshold opts \<le> bestFieldScore lc (trim query) opts e \<and>
      (\<forall>x\<in>set its. bestFieldScore lc (trim query) opts x \<le> bestFieldScore lc (trim query) opts e) \<and>
      (\<exists>sr. searchInItem lc e (trim query) opts = Inr (Some sr) \<and>
         score sr = bestFieldScore lc (trim query) opts e \<and>
         matchedField sr \<in> set (enabledFields opts) \<and>
         fieldScore lc (trim query) opts e (matchedField sr) = score sr \<and>
         (\<forall>x\<in>set its. \<forall>sr'. searchInItem lc x (trim query) opts = Inr (Some sr') \<longrightarrow>
            score sr' \<le> score sr))"
      by (rule conjI)
  qed
  show ?thesis
    unfolding Let_def opts_def [symmetric] its_def [symmetric]
    using l ex none none' some by (intro conjI)
qed

section \<open>Autocomplete\<close>

lemma ranked_cases:
  "ranked lc opts q e =
     (if primaryMatch lc opts q e
      then Some \<lparr>entryName = entryName e, entryBnName = entryBnName e, entryType = entryType e,
                  entryItem = entryItem e, priority = 1\<rparr>
      else if secondaryMatch opts q e
      then Some \<lparr>entryName = entryName e, entryBnName = entryBnName e, entryType = entryType e,
                  entryItem = entryItem e, priority = 2\<rparr>
      else None)"
  by (simp add: ranked_def rankOf_def entry.defs rankedEntry.defs)

lemma checkStartsWith_ranked:
  "checkStartsWith lc opts q results (name x) (bnName x) ty x =
     results @ (case ranked lc opts q (mkEntry ty x) of None \<Rightarrow> [] | Some e \<Rightarrow> [e])"
  by (simp add: checkStartsWith_def ranked_cases primaryMatch_def secondaryMatch_def mkEntry_def Let_def)

lemma checkAll_ranked:
  "checkAll lc opts q ty results data =
     results @ List.map_filter (ranked lc opts q) (map (mkEntry ty) data)"
proof -
  have "foldl (\<lambda>res x. res @ (case ranked lc opts q (mkEntry ty x) of None \<Rightarrow> [] | Some e \<Rightarrow> [e]))
          results data =
        results @ List.map_filter (ranked lc opts q) (map (mkEntry ty) data)"
    by (induction data arbitrary: results)
       (auto simp: List.map_filter_simps split: option.splits)
  then show ?thesis
    by (simp add: checkAll_def checkStartsWith_ranked)
qed

lemma map_filter_append:
  "List.map_filter f (xs @ ys) = List.map_filter f xs @ List.map_filter f ys"
  by (simp add: List.map_filter_def)

lemma autocompleteResults_ranked:
  "autocompleteResults lc cat q opts = List.map_filter (ranked lc opts q) (candidates cat opts)"
  by (simp add: autocompleteResults_def candidates_def checkAll_ranked map_filter_append
      List.map_filter_simps Let_def)

lemma sort_key_two:
  fixes f :: "'a \<Rightarrow> int"
  assumes "\<forall>r\<in>set xs. f r = 1 \<or> f r = 2"
  shows "sort_key f xs = filter (\<lambda>r. f r = 1) xs @ filter (\<lambda>r. f r = 2) xs"
proof (rule properties_for_sort_key)
  show "mset (filter (\<lambda>r. f r = 1) xs @ filter (\<lambda>r. f r = 2) xs) = mset xs"
    using assms by (induction xs) auto
next
  fix k assume "k \<in> set (filter (\<lambda>r. f r = 1) xs @ filter (\<lambda>r. f r = 2) xs)"
  then have "f k = 1 \<or> f k = 2" by auto
  then show "filter (\<lambda>x. f k = f x) (filter (\<lambda>r. f r = 1) xs @ filter (\<lambda>r. f r = 2) xs) =
             filter (\<lambda>x. f k = f x) xs"
    by (auto intro!: filter_cong simp: filter_empty_conv)
next
  have c: "sorted (map f (filter (\<lambda>r. f r = k) xs))" for k
    by (induction xs) auto
  show "sorted (map f (filter (\<lambda>r. f r = 1) xs @ filter (\<lambda>r. f r = 2) xs))"
    by (auto simp: sorted_append c)
qed

lemma ranked_priority:
  "r \<in> set (List.map_filter (ranked lc opts q) cs) \<Longrightarrow> priority r = 1 \<or> priority r = 2"
  by (induction cs) (auto simp: List.map_filter_simps ranked_cases split: option.splits if_splits)

lemma truncate_primary:
  "map entry.truncate (filter (\<lambda>r. priority r = 1) (List.map_filter (ranked lc opts q) cs)) =
     filter (primaryMatch lc opts q) cs"
  by (induction cs) (auto simp: List.map_filter_simps ranked_cases entry.defs split: option.splits)

lemma truncate_secondary:
  "map entry.truncate (filter (\<lambda>r. priority r = 2) (List.map_filter (ranked lc opts q) cs)) =
     filter (\<lambda>e. \<not> primaryMatch lc opts q e \<and> secondaryMatch opts q e) cs"
  by (induction cs) (auto simp: List.map_filter_simps ranked_cases entry.defs split: option.splits)

lemma map_slice0: "map f (slice0 xs e) = slice0 (map f xs) e"
  by (simp add: slice0_def Let_def take_map)

lemma autocompleteTrimmed_spec:
  "autocompleteTrimmed lc cat tq opts =
     slice0 (filter (primaryMatch lc opts (folded lc (caseSensitive opts) tq)) (candidates cat opts) @
             filter (\<lambda>e. \<not> primaryMatch lc opts (folded lc (caseSensitive opts) tq) e \<and>
                          secondaryMatch opts (folded lc (caseSensitive opts) tq) e) (candidates cat opts))
       (limit opts)"
proof -
  let ?q = "folded lc (caseSensitive opts) tq"
  let ?R = "List.map_filter (ranked lc opts ?q) (candidates cat opts)"
  have "sort_key priority ?R = filter (\<lambda>r. priority r = 1) ?R @ filter (\<lambda>r. priority r = 2) ?R"
    by (rule sort_key_two) (auto dest: ranked_priority)
  then show ?thesis
    unfolding autocompleteTrimmed_def autocompleteResults_ranked
    by (simp only: map_slice0 map_append truncate_primary truncate_secondary)
qed

subsection \<open>The slug is not read\<close>

lemma candidates_mapCatalog:
  assumes "\<And>x. name (g x) = name x" and "\<And>x. bnName (g x) = bnName x"
  shows "candidates (mapCatalog g cat) opts =
         map (\<lambda>e. e\<lparr>entryItem := g (entryItem e)\<rparr>) (candidates cat opts)"
  by (simp add: candidates_def mapCatalog_def mkEntry_def assms)

lemma primaryMatch_item [simp]:
  "primaryMatch lc opts q (e\<lparr>entryItem := y\<rparr>) = primaryMatch lc opts q e"
  by (simp add: primaryMatch_def)

lemma secondaryMatch_item [simp]:
  "secondaryMatch opts q (e\<lparr>entryItem := y\<rparr>) = secondaryMatch opts q e"
  by (simp add: secondaryMatch_def)

lemma autocompleteTrimmed_mapCatalog:
  assumes "\<And>x. name (g x) = name x" and "\<And>x. bnName (g x) = bnName x"
  shows "autocompleteTrimmed lc (mapCatalog g cat) tq opts =
         map (\<lambda>e. e\<lparr>entryItem := g (entryItem e)\<rparr>) (autocompleteTrimmed lc cat tq opts)"
  unfolding autocompleteTrimmed_spec candidates_mapCatalog [OF assms]
  by (simp add: map_slice0 filter_map o_def)

lemma mergeOptions_includeSlug:
  "mergeOptions (options\<lparr>includeSlug' := s\<rparr>) =
     (mergeOptions options)\<lparr>includeSlug := (case s of None \<Rightarrow> True | Some v \<Rightarrow> v)\<rparr>"
  by (cases s) (simp_all add: mergeOptions_def defaultSearchOptions_def)

lemma includeSlug_unread:
  "candidates cat (opts\<lparr>includeSlug := b\<rparr>) = candidates cat opts"
  "primaryMatch lc (opts\<lparr>includeSlug := b\<rparr>) = primaryMatch lc opts"
  "secondaryMatch (opts\<lparr>includeSlug := b\<rparr>) = secondaryMatch opts"
  by (simp_all add: candidates_def primaryMatch_def secondaryMatch_def fun_eq_iff)

lemma autocompleteTrimmed_includeSlug:
  "autocompleteTrimmed lc cat tq (opts\<lparr>includeSlug := b\<rparr>) = autocompleteTrimmed lc cat tq opts"
  unfolding autocompleteTrimmed_spec includeSlug_unread
  by simp

text \<open>
  Claim C6. The output of \<open>autocomplete\<close> is the candidates that match on the primary
  name, in catalog iteration order (divisions, districts, upazilas), followed by the
  candidates that match on the secondary name only, in the same order, cut by the
  slice. The slug is never read: the \<open>includeSlug\<close> flag does not change the output, and
  replacing the slugs of the catalog changes nothing but the slugs that the returned
  entities carry.
\<close>

theorem autocomplete_order:
  "autocomplete lc cat query options =
     (let opts = mergeOptions options;
          q = autocompleteQuery lc opts query;
          cs = candidates cat opts
      in if trim query = [] then []
         else slice0 (filter (primaryMatch lc opts q) cs @
                      filter (\<lambda>e. \<not> primaryMatch lc opts q e \<and> secondaryMatch opts q e) cs)
                (limit opts)) \<and>
   autocomplete lc cat query (options\<lparr>includeSlug' := s\<rparr>) = autocomplete lc cat query options \<and>
   autocomplete lc (mapCatalog (\<lambda>x. x\<lparr>slug := f x\<rparr>) cat) query options =
     map (\<lambda>e. e\<lparr>entryItem := (entryItem e)\<lparr>slug := f (entryItem e)\<rparr>\<rparr>)
       (autocomplete lc cat query options)"
proof -
  have a: "autocomplete lc cat query options =
     (let opts = mergeOptions options;
          q = autocompleteQuery lc opts query;
          cs = candidates cat opts
      in if trim query = [] then []
         else slice0 (filter (primaryMatch lc opts q) cs @
                      filter (\<lambda>e. \<not> primaryMatch lc opts q e \<and> secondaryMatch opts q e) cs)
                (limit opts))"
    unfolding autocomplete_unfold autocompleteTrimmed_spec autocompleteQuery_def Let_def ..
  have b: "autocomplete lc cat query (options\<lparr>includeSlug' := s\<rparr>) = autocomplete lc cat query options"
    unfolding autocomplete_unfold mergeOptions_includeSlug autocompleteTrimmed_includeSlug ..
  have c: "autocomplete lc (mapCatalog (\<lambda>x. x\<lparr>slug := f x\<rparr>) cat) query options =
     map (\<lambda>e. e\<lparr>entryItem := (entryItem e)\<lparr>slug := f (entryItem e)\<rparr>\<rparr>)
       (autocomplete lc cat query options)"
    unfolding autocomplete_unfold
    by (simp add: autocompleteTrimmed_mapCatalog)
  from a b c show ?thesis by (intro conjI)
qed

subsection \<open>Case folding in the prefix tests\<close>

text \<open>What \<open>checkStartsWith\<close> pushes for a secondary name that folding leaves unchanged.\<close>

lemma checkStartsWith_folding:
  assumes "\<not> caseSensitive opts" and "lc bn = bn"
  shows "autocompleteQuery lc opts query = lc (trim query) \<and>
    ((\<exists>e. checkStartsWith lc opts (lc (trim query)) results nm bn ty it = results @ [e] \<and> priority e = 1)
       \<longleftrightarrow> includeEnglish opts \<and> startsWith (lc nm) (lc (trim query))) \<and>
    ((\<exists>e. checkStartsWith lc opts (lc (trim query)) results nm bn ty it = results @ [e] \<and> priority e = 2)
       \<longleftrightarrow> \<not> (includeEnglish opts \<and> startsWith (lc nm) (lc (trim query))) \<and>
           includeBengali opts \<and> startsWith (lc bn) (lc (trim query))) \<and>
    (checkStartsWith lc opts (lc (trim query)) results nm bn ty it = results
       \<longleftrightarrow> \<not> (includeEnglish opts \<and> startsWith (lc nm) (lc (trim query))) \<and>
           \<not> (includeBengali opts \<and> startsWith (lc bn) (lc (trim query))))"
  using assms by (auto simp: checkStartsWith_def autocompleteQuery_def Let_def)


section \<open>The properties on the example catalog\<close>

text \<open>
  Claim C4 on the query z with threshold 0: every entity scores 0, and the two divisions
  come out in catalog order.
\<close>

theorem search_ranked_witness:
  "search asciiLower exampleCatalog (str ''z'') acceptAll =
     Inr \<lparr>divisions = [\<lparr>item = dhakaDivision, score = 0, matchedField = Name\<rparr>,
                        \<lparr>item = sylhetDivision, score = 0, matchedField = Name\<rparr>],
          districts = [\<lparr>item = dhakaDistrict, score = 0, matchedField = Name\<rparr>],
          upazilas = [\<lparr>item = savarUpazila, score = 0, matchedField = Name\<rparr>]\<rparr> \<and>
   rankedOver [\<lparr>item = dhakaDivision, score = 0, matchedField = Name\<rparr>,
               \<lparr>item = sylhetDivision, score = 0, matchedField = Name\<rparr>]
     (divisionsData exampleCatalog)"
proof -
  have "searchTrimmed asciiLower exampleCatalog (str ''z'') (mergeOptions acceptAll) =
     Inr \<lparr>divisions = [\<lparr>item = dhakaDivision, score = 0, matchedField = Name\<rparr>,
                        \<lparr>item = sylhetDivision, score = 0, matchedField = Name\<rparr>],
          districts = [\<lparr>item = dhakaDistrict, score = 0, matchedField = Name\<rparr>],
          upazilas = [\<lparr>item = savarUpazila, score = 0, matchedField = Name\<rparr>]\<rparr>"
    by code_simp
  then have h: "search asciiLower exampleCatalog (str ''z'') acceptAll =
     Inr \<lparr>divisions = [\<lparr>item = dhakaDivision, score = 0, matchedField = Name\<rparr>,
                        \<lparr>item = sylhetDivision, score = 0, matchedField = Name\<rparr>],
          districts = [\<lparr>item = dhakaDistrict, score = 0, matchedField = Name\<rparr>],
          upazilas = [\<lparr>item = savarUpazila, score = 0, matchedField = Name\<rparr>]\<rparr>"
    by (simp add: search_unfold trim_examples)
  from search_ranked [OF h] h show ?thesis by simp
qed

text \<open>
  Claim C5 on the query Dha with limit 1: one division and one district are returned, two
  entries in all.
\<close>

theorem search_limit_witness:
  "search asciiLower exampleCatalog (str ''Dha'') limitOne =
     Inr \<lparr>divisions = [\<lparr>item = dhakaDivision, score = 23 / 25, matchedField = Name\<rparr>],
          districts = [\<lparr>item = dhakaDistrict, score = 23 / 25, matchedField = Name\<rparr>],
          upazilas = []\<rparr> \<and>
   limit (mergeOptions limitOne) = 1 \<and>
   int (length [\<lparr>item = dhakaDivision, score = 23 / 25, matchedField = Name\<rparr>]) \<le> limit (mergeOptions limitOne) \<and>
   int (length [\<lparr>item = dhakaDistrict, score = 23 / 25, matchedField = Name\<rparr>]) \<le> limit (mergeOptions limitOne)"
proof -
  have "searchTrimmed asciiLower exampleCatalog (str ''Dha'') (mergeOptions limitOne) =
     Inr \<lparr>divisions = [\<lparr>item = dhakaDivision, score = 23 / 25, matchedField = Name\<rparr>],
          districts = [\<lparr>item = dhakaDistrict, score = 23 / 25, matchedField = Name\<rparr>],
          upazilas = []\<rparr>"
    by code_simp
  then have h: "search asciiLower exampleCatalog (str ''Dha'') limitOne =
     Inr \<lparr>divisions = [\<lparr>item = dhakaDivision, score = 23 / 25, matchedField = Name\<rparr>],
          districts = [\<lparr>item = dhakaDistrict, score = 23 / 25, matchedField = Name\<rparr>],
          upazilas = []\<rparr>"
    by (simp add: search_unfold trim_examples)
  have l: "limit (mergeOptions limitOne) = 1"
    by code_simp
  then have "0 \<le> limit (mergeOptions limitOne)" by simp
  from search_limit [OF h this] h l show ?thesis by simp
qed

text \<open>
  Claim C5 as stated fails for a negative limit: with limit -1 and threshold 0 the two
  divisions match the query Dha, the slice drops the last, and one entry is returned.
\<close>

theorem search_limit_counterexample:
  "search asciiLower exampleCatalog (str ''Dha'') negativeLimit =
     Inr \<lparr>divisions = [\<lparr>item = dhakaDivision, score = 23 / 25, matchedField = Name\<rparr>],
          districts = [], upazilas = []\<rparr> \<and>
   limit (mergeOptions negativeLimit) <
     int (length [\<lparr>item = dhakaDivision, score = 23 / 25, matchedField = Name\<rparr>])"
proof -
  have "searchTrimmed asciiLower exampleCatalog (str ''Dha'') (mergeOptions negativeLimit) =
     Inr \<lparr>divisions = [\<lparr>item = dhakaDivision, score = 23 / 25, matchedField = Name\<rparr>],
          districts = [], upazilas = []\<rparr>"
    by code_simp
  moreover have "limit (mergeOptions negativeLimit) = - 1"
    by code_simp
  ultimately show ?thesis
    by (simp add: search_unfold trim_examples)
qed

text \<open>Claim C10 on a search of the districts only.\<close>

theorem search_types_witness:
  "search asciiLower exampleCatalog (str ''Dha'') districtsOnly =
     Inr \<lparr>divisions = [],
          districts = [\<lparr>item = dhakaDistrict, score = 23 / 25, matchedField = Name\<rparr>],
          upazilas = []\<rparr> \<and>
   Division \<notin> set (types (mergeOptions districtsOnly)) \<and>
   Upazila \<notin> set (types (mergeOptions districtsOnly))"
proof -
  have "searchTrimmed asciiLower exampleCatalog (str ''Dha'') (mergeOptions districtsOnly) =
     Inr \<lparr>divisions = [],
          districts = [\<lparr>item = dhakaDistrict, score = 23 / 25, matchedField = Name\<rparr>],
          upazilas = []\<rparr>"
    by code_simp
  then have h: "search asciiLower exampleCatalog (str ''Dha'') districtsOnly =
     Inr \<lparr>divisions = [],
          districts = [\<lparr>item = dhakaDistrict, score = 23 / 25, matchedField = Name\<rparr>],
          upazilas = []\<rparr>"
    by (simp add: search_unfold trim_examples)
  have t: "types (mergeOptions districtsOnly) = [District]"
    by code_simp
  from search_types [OF h] h t show ?thesis by simp
qed

text \<open>
  Claim C7 on the query dhaka: the division scores 0.8 on its name, the upazila scores 0
  on its name and 1 on its slug, and \<open>quickSearch\<close> returns the upazila.
\<close>

theorem quickSearch_best_witness:
  "quickSearch asciiLower fieldCatalog (str ''dhaka'') noOptions = Inr (Some slugOnly) \<and>
   fieldScore asciiLower (str ''dhaka'') (mergeOptions (noOptions\<lparr>limit' := Some 1\<rparr>)) slugOnly Name = 0 \<and>
   bestFieldScore asciiLower (str ''dhaka'') (mergeOptions (noOptions\<lparr>limit' := Some 1\<rparr>)) slugOnly = 1 \<and>
   bestFieldScore asciiLower (str ''dhaka'') (mergeOptions (noOptions\<lparr>limit' := Some 1\<rparr>)) nearName = 4 / 5 \<and>
   bestFieldScore asciiLower (trim (str ''dhaka'')) (mergeOptions (noOptions\<lparr>limit' := Some 1\<rparr>)) nearName
     \<le> bestFieldScore asciiLower (trim (str ''dhaka'')) (mergeOptions (noOptions\<lparr>limit' := Some 1\<rparr>)) slugOnly"
proof -
  let ?opts = "mergeOptions (noOptions\<lparr>limit' := Some 1\<rparr>)"
  have "searchTrimmed asciiLower fieldCatalog (str ''dhaka'') ?opts =
     Inr \<lparr>divisions = [\<lparr>item = nearName, score = 4 / 5, matchedField = Name\<rparr>],
          districts = [],
          upazilas = [\<lparr>item = slugOnly, score = 1, matchedField = Slug\<rparr>]\<rparr>"
    by code_simp
  then have s: "search asciiLower fieldCatalog (str ''dhaka'') (noOptions\<lparr>limit' := Some 1\<rparr>) =
     Inr \<lparr>divisions = [\<lparr>item = nearName, score = 4 / 5, matchedField = Name\<rparr>],
          districts = [],
          upazilas = [\<lparr>item = slugOnly, score = 1, matchedField = Slug\<rparr>]\<rparr>"
    by (simp add: search_unfold trim_examples)
  have o: "sortByScore [\<lparr>item = nearName, score = 4 / 5, matchedField = Name\<rparr>,
             \<lparr>item = slugOnly, score = 1, matchedField = Slug\<rparr>] =
           [\<lparr>item = slugOnly, score = 1, matchedField = Slug\<rparr>,
            \<lparr>item = nearName, score = 4 / 5, matchedField = Name\<rparr>]"
    by code_simp
  have h: "quickSearch asciiLower fieldCatalog (str ''dhaka'') noOptions = Inr (Some slugOnly)"
    by (simp add: quickSearch_unfold s o)
  have m: "nearName \<in> set (searchedItems fieldCatalog ?opts)"
    by code_simp
  have v: "fieldScore asciiLower (str ''dhaka'') ?opts slugOnly Name = 0"
    "bestFieldScore asciiLower (str ''dhaka'') ?opts slugOnly = 1"
    "bestFieldScore asciiLower (str ''dhaka'') ?opts nearName = 4 / 5"
    by code_simp+
  from quickSearch_best [OF h, unfolded Let_def]
  have "\<forall>x\<in>set (searchedItems fieldCatalog ?opts).
          bestFieldScore asciiLower (trim (str ''dhaka'')) ?opts x
            \<le> bestFieldScore asciiLower (trim (str ''dhaka'')) ?opts slugOnly"
    by blast
  from this m have "bestFieldScore asciiLower (trim (str ''dhaka'')) ?opts nearName
            \<le> bestFieldScore asciiLower (trim (str ''dhaka'')) ?opts slugOnly"
    by (rule bspec)
  with h v show ?thesis by (intro conjI)
qed

text \<open>
  Claim C6 on the query dha: the first division of the catalog matches on its secondary
  name only and comes last, after the division and the district that match on the
  primary name.
\<close>

theorem autocomplete_order_witness:
  "candidates mixedCatalog (mergeOptions noOptions) =
     [mkEntry Division romanLower, mkEntry Division dhakaDivision,
      mkEntry District dhakaDistrict, mkEntry Upazila savarUpazila] \<and>
   autocomplete asciiLower mixedCatalog (str ''dha'') noOptions =
     [mkEntry Division dhakaDivision, mkEntry District dhakaDistrict,
      mkEntry Division romanLower]"
proof -
  have c: "candidates mixedCatalog (mergeOptions noOptions) =
     [mkEntry Division romanLower, mkEntry Division dhakaDivision,
      mkEntry District dhakaDistrict, mkEntry Upazila savarUpazila]"
    by code_simp
  have "caseSensitive (mergeOptions noOptions) = False"
    by code_simp
  then have q: "autocompleteQuery asciiLower (mergeOptions noOptions) (str ''dha'') =
      asciiLower (str ''dha'')"
    by (simp add: autocompleteQuery_def trim_examples)
  have e: "slice0
      (filter (primaryMatch asciiLower (mergeOptions noOptions) (asciiLower (str ''dha'')))
         [mkEntry Division romanLower, mkEntry Division dhakaDivision,
          mkEntry District dhakaDistrict, mkEntry Upazila savarUpazila] @
       filter (\<lambda>e. \<not> primaryMatch asciiLower (mergeOptions noOptions) (asciiLower (str ''dha'')) e \<and>
                    secondaryMatch (mergeOptions noOptions) (asciiLower (str ''dha'')) e)
         [mkEntry Division romanLower, mkEntry Division dhakaDivision,
          mkEntry District dhakaDistrict, mkEntry Upazila savarUpazila])
      (limit (mergeOptions noOptions)) =
     [mkEntry Division dhakaDivision, mkEntry District dhakaDistrict,
      mkEntry Division romanLower]"
    by code_simp
  have "autocomplete asciiLower mixedCatalog (str ''dha'') noOptions =
     [mkEntry Division dhakaDivision, mkEntry District dhakaDistrict,
      mkEntry Division romanLower]"
    using autocomplete_order [of asciiLower mixedCatalog "str ''dha''" noOptions]
    by (simp only: Let_def trim_examples q c e if_False)
  with c show ?thesis by simp
qed



subsection \<open>Where the code departs from its documentation\<close>

text \<open>
  Claim C1 fails on the code. With the three field flags off and a query that is not
  blank, \<open>searchInItem\<close> reduces an empty array and raises a TypeError at the first
  entity scanned; \<open>search\<close> and \<open>quickSearch\<close> propagate it. \<open>autocomplete\<close>, under
  the same options, returns the empty sequence.
\<close>

theorem search_throws_TypeError:
  "search asciiLower exampleCatalog (str ''Dhaka'') allFieldsOff = Inl TypeError \<and>
   quickSearch asciiLower exampleCatalog (str ''Dhaka'') allFieldsOff = Inl TypeError \<and>
   autocomplete asciiLower exampleCatalog (str ''Dhaka'') allFieldsOff = []"
proof -
  have "searchTrimmed asciiLower exampleCatalog (str ''Dhaka'') (mergeOptions allFieldsOff) = Inl TypeError"
    by code_simp
  then have s: "search asciiLower exampleCatalog (str ''Dhaka'') allFieldsOff = Inl TypeError"
    by (simp add: search_unfold trim_examples)
  have "searchTrimmed asciiLower exampleCatalog (str ''Dhaka'')
          (mergeOptions (allFieldsOff\<lparr>limit' := Some 1\<rparr>)) = Inl TypeError"
    by code_simp
  then have q: "quickSearch asciiLower exampleCatalog (str ''Dhaka'') allFieldsOff = Inl TypeError"
    by (simp add: quickSearch_def search_unfold trim_examples)
  have "autocompleteTrimmed asciiLower exampleCatalog (str ''Dhaka'') (mergeOptions allFieldsOff) = []"
    by code_simp
  then have a: "autocomplete asciiLower exampleCatalog (str ''Dhaka'') allFieldsOff = []"
    by (simp add: autocomplete_unfold trim_examples)
  from s q a show ?thesis by simp
qed

text \<open>
  Claim C8 fails on the code. \<open>fuzzySearch\<close> sets the threshold to 0.4, above the default
  0.3: the query Shilot scores 1/3 against Sylhet, so \<open>search\<close> returns the division and
  \<open>fuzzySearch\<close> returns nothing.
\<close>

theorem fuzzySearch_stricter:
  "search asciiLower exampleCatalog (str ''Shilot'') noOptions =
     Inr \<lparr>divisions = [\<lparr>item = sylhetDivision, score = 1 / 3, matchedField = Name\<rparr>],
          districts = [], upazilas = []\<rparr> \<and>
   fuzzySearch asciiLower exampleCatalog (str ''Shilot'') noOptions =
     Inr \<lparr>divisions = [], districts = [], upazilas = []\<rparr> \<and>
   threshold (mergeOptions (noOptions\<lparr>threshold' := Some 0.4\<rparr>)) > threshold defaultSearchOptions"
proof -
  have "searchTrimmed asciiLower exampleCatalog (str ''Shilot'') (mergeOptions noOptions) =
     Inr \<lparr>divisions = [\<lparr>item = sylhetDivision, score = 1 / 3, matchedField = Name\<rparr>],
          districts = [], upazilas = []\<rparr>"
    by code_simp
  then have s: "search asciiLower exampleCatalog (str ''Shilot'') noOptions =
     Inr \<lparr>divisions = [\<lparr>item = sylhetDivision, score = 1 / 3, matchedField = Name\<rparr>],
          districts = [], upazilas = []\<rparr>"
    by (simp add: search_unfold trim_examples)
  have "searchTrimmed asciiLower exampleCatalog (str ''Shilot'')
          (mergeOptions (noOptions\<lparr>threshold' := Some 0.4\<rparr>)) =
     Inr \<lparr>divisions = [], districts = [], upazilas = []\<rparr>"
    by code_simp
  then have f: "fuzzySearch asciiLower exampleCatalog (str ''Shilot'') noOptions =
     Inr \<lparr>divisions = [], districts = [], upazilas = []\<rparr>"
    by (simp add: fuzzySearch_def search_unfold trim_examples)
  have t: "threshold (mergeOptions (noOptions\<lparr>threshold' := Some 0.4\<rparr>)) > threshold defaultSearchOptions"
    by code_simp
  from s f t show ?thesis by simp
qed

end
